theory Spec2Isabelle
  imports Complex_Main
begin

section \<open>Linear programs as the notebook hands them to the solver\<close>

text \<open>
  The notebook \<^verbatim>\<open>week2/Max Flow + Min Cut.ipynb\<close> defines two functions,
  \<^verbatim>\<open>max_flow(nodes, arcs, capacity)\<close> and \<^verbatim>\<open>min_cut(nodes, arcs, capacity)\<close>.
  Each one creates a solver model, adds variables and linear constraints, calls
  \<^verbatim>\<open>m.optimize()\<close> and, when the status is \<^verbatim>\<open>GRB.OPTIMAL\<close>, prints a part of the
  solution. Nodes are strings, an arc is a pair of nodes, \<^verbatim>\<open>capacity\<close> is a dictionary
  keyed by arcs; in the notebook \<^verbatim>\<open>arcs\<close> is \<^verbatim>\<open>capacity.keys()\<close>.
  Capacities and variable values are real numbers: the linear programs are read over
  the reals, the solver's floating point is outside this development.
\<close>

type_synonym node = string
type_synonym arc = "node \<times> node"

text \<open>
  The variables of a model are the entries of the tupledicts \<^verbatim>\<open>flow\<close>,
  \<^verbatim>\<open>remove\<close> and \<^verbatim>\<open>connect\<close>, named by tupledict and key.
\<close>

datatype var = flow arc | remove arc | connect node

text \<open>Linear expressions as the source writes them, and their value under an assignment.\<close>

datatype LinExpr =
    Var var
  | Num real
  | Add LinExpr LinExpr
  | Sub LinExpr LinExpr
  | Scale real LinExpr
  | quicksum "LinExpr list"

fun lin_value :: "(var \<Rightarrow> real) \<Rightarrow> LinExpr \<Rightarrow> real" where
  "lin_value x (Var v) = x v"
| "lin_value x (Num c) = c"
| "lin_value x (Add a b) = lin_value x a + lin_value x b"
| "lin_value x (Sub a b) = lin_value x a - lin_value x b"
| "lin_value x (Scale c a) = c * lin_value x a"
| "lin_value x (quicksum es) = sum_list (map (lin_value x) es)"

datatype sense = LE | GE | EQ

datatype TempConstr = Constr LinExpr sense LinExpr

fun satisfies :: "(var \<Rightarrow> real) \<Rightarrow> TempConstr \<Rightarrow> bool" where
  "satisfies x (Constr l LE r) = (lin_value x l \<le> lin_value x r)"
| "satisfies x (Constr l GE r) = (lin_value x l \<ge> lin_value x r)"
| "satisfies x (Constr l EQ r) = (lin_value x l = lin_value x r)"

text \<open>
  A model: its variables, its objective, its sense (\<open>1\<close> minimises, \<open>-1\<close> maximises)
  and its constraints. Every variable is created by \<^verbatim>\<open>addVars\<close> without bounds and
  so has the solver's defaults: continuous, lower bound \<open>0\<close>, no upper bound.
\<close>

record Model =
  vars :: "var list"
  objective :: LinExpr
  ModelSense :: int
  constrs :: "TempConstr list"

definition new_Model :: Model where
  "new_Model = \<lparr>vars = [], objective = Num 0, ModelSense = 1, constrs = []\<rparr>"

text \<open>
  Errors. A dictionary lookup with a missing key raises \<^verbatim>\<open>KeyError\<close>, and
  \<^verbatim>\<open>addVars\<close> raises \<^verbatim>\<open>KeyError('Duplicate keys in Model.addVars()')\<close> when a key
  is given twice.
\<close>

datatype error = KeyError_arc arc | KeyError_node node | KeyError_duplicate

text \<open>
  \<^verbatim>\<open>m.addVars(keys, obj=...)\<close>: new variables, each with its objective coefficient
  (\<open>0\<close> when \<^verbatim>\<open>obj\<close> is not given), unless a key is repeated.
\<close>

definition addVars :: "Model \<Rightarrow> (var \<times> real) list \<Rightarrow> error + Model" where
  "addVars m vos =
     (if distinct (map fst vos)
      then Inr (m\<lparr>vars := vars m @ map fst vos,
                  objective := Add (objective m)
                    (quicksum (map (\<lambda>vo. Scale (snd vo) (Var (fst vo))) vos))\<rparr>)
      else Inl KeyError_duplicate)"

text \<open>\<^verbatim>\<open>m.setObjective(expr, sense)\<close> replaces the objective and the sense.\<close>

definition setObjective :: "Model \<Rightarrow> LinExpr \<Rightarrow> int \<Rightarrow> Model" where
  "setObjective m e s = m\<lparr>objective := e, ModelSense := s\<rparr>"

definition addConstrs :: "Model \<Rightarrow> TempConstr list \<Rightarrow> Model" where
  "addConstrs m cs = m\<lparr>constrs := constrs m @ cs\<rparr>"

definition addConstr :: "Model \<Rightarrow> TempConstr \<Rightarrow> Model" where
  "addConstr m c = addConstrs m [c]"

text \<open>
  \<^verbatim>\<open>flow.sum(i, j)\<close>, \<^verbatim>\<open>flow.sum(j, '*')\<close> and \<^verbatim>\<open>flow.sum('*', j)\<close>: the sum of the
  entries of \<^verbatim>\<open>flow\<close> whose key matches the pattern. A field of the pattern that is
  the string \<^verbatim>\<open>'*'\<close> matches every value, also when the field comes from a variable:
  for a node named \<^verbatim>\<open>'*'\<close> the call \<^verbatim>\<open>flow.sum(j, '*')\<close> is \<^verbatim>\<open>flow.sum('*', '*')\<close>.
\<close>

definition matches :: "node \<Rightarrow> node \<Rightarrow> bool" where
  "matches p n \<longleftrightarrow> p = ''*'' \<or> p = n"

definition flow_sum :: "arc list \<Rightarrow> node \<Rightarrow> node \<Rightarrow> LinExpr" where
  "flow_sum arcs p q =
     quicksum (map (\<lambda>a. Var (flow a)) (filter (\<lambda>a. matches p (fst a) \<and> matches q (snd a)) arcs))"

fun for_each :: "('a \<Rightarrow> error + 'b) \<Rightarrow> 'a list \<Rightarrow> error + 'b list" where
  "for_each f [] = Inr []"
| "for_each f (a # as) =
     (case f a of
        Inl e \<Rightarrow> Inl e
      | Inr b \<Rightarrow> (case for_each f as of Inl e \<Rightarrow> Inl e | Inr bs \<Rightarrow> Inr (b # bs)))"

definition capacity_at :: "(arc \<rightharpoonup> real) \<Rightarrow> arc \<Rightarrow> error + real" where
  "capacity_at capacity a =
     (case capacity a of None \<Rightarrow> Inl (KeyError_arc a) | Some c \<Rightarrow> Inr c)"

section \<open>The model built by \<^verbatim>\<open>max_flow\<close>\<close>

text \<open>
  \<^verbatim>\<open>
  m = gp.Model('flow')
  flow = m.addVars(arcs, obj=1, name="flow")
  m.setObjective(gp.quicksum(var for (i, j), var in flow.items() if i == "s"), sense=-1)
  m.addConstrs((flow.sum(i, j) <= capacity[i, j] for i, j in arcs), "cap")
  m.addConstrs((flow.sum(j, '*') == flow.sum('*', j)
                for j in nodes if j not in ('s', 't')), "node")
  \<close>
\<close>

definition cap_constr :: "arc list \<Rightarrow> (arc \<rightharpoonup> real) \<Rightarrow> arc \<Rightarrow> error + TempConstr" where
  "cap_constr arcs capacity a =
     (case capacity_at capacity a of
        Inl e \<Rightarrow> Inl e
      | Inr c \<Rightarrow> Inr (Constr (flow_sum arcs (fst a) (snd a)) LE (Num c)))"

definition node_constr :: "arc list \<Rightarrow> node \<Rightarrow> TempConstr" where
  "node_constr arcs j = Constr (flow_sum arcs j ''*'') EQ (flow_sum arcs ''*'' j)"

definition max_flow_model :: "node list \<Rightarrow> arc list \<Rightarrow> (arc \<rightharpoonup> real) \<Rightarrow> error + Model" where
  "max_flow_model nodes arcs capacity =
     (case addVars new_Model (map (\<lambda>a. (flow a, 1)) arcs) of
        Inl e \<Rightarrow> Inl e
      | Inr m \<Rightarrow>
          (let m = setObjective m
                     (quicksum (map (\<lambda>a. Var (flow a)) (filter (\<lambda>a. fst a = ''s'') arcs))) (- 1)
           in case for_each (cap_constr arcs capacity) arcs of
                Inl e \<Rightarrow> Inl e
              | Inr cs \<Rightarrow>
                  Inr (addConstrs (addConstrs m cs)
                         (map (node_constr arcs)
                            (filter (\<lambda>j. j \<noteq> ''s'' \<and> j \<noteq> ''t'') nodes)))))"

section \<open>The model built by \<^verbatim>\<open>min_cut\<close>\<close>

text \<open>
  \<^verbatim>\<open>
  m = gp.Model('cut')
  m.ModelSense = 1
  remove = m.addVars(arcs, vtype=GRB.CONTINUOUS, obj=capacity, name="r_")
  connect = m.addVars((i for i in nodes if i not in ("s", "t")), name="z_", vtype=GRB.CONTINUOUS)
  for (i, j) in arcs:
      if i == "s":
          m.addConstr(remove["s", j] + connect[j] >= 1)
      elif j == "t":
          m.addConstr(remove[i, "t"] - connect[i] >= 0)
      else:
          m.addConstr(remove[i, j] + connect[j] - connect[i] >= 0)
  \<close>
  \<^verbatim>\<open>connect\<close> has a key for every node of \<^verbatim>\<open>nodes\<close> other than \<^verbatim>\<open>"s"\<close> and
  \<^verbatim>\<open>"t"\<close>; \<^verbatim>\<open>connect[j]\<close> for any other \<^verbatim>\<open>j\<close> raises \<^verbatim>\<open>KeyError\<close>. The dictionary
  \<^verbatim>\<open>capacity\<close> is handed to \<^verbatim>\<open>addVars\<close> as it is: an arc that is not one of its keys
  raises nothing there and keeps the objective coefficient \<open>0\<close>.
\<close>

definition obj_of :: "(arc \<rightharpoonup> real) \<Rightarrow> arc \<Rightarrow> real" where
  "obj_of capacity a = (case capacity a of None \<Rightarrow> 0 | Some c \<Rightarrow> c)"

definition connect_at :: "node list \<Rightarrow> node \<Rightarrow> error + LinExpr" where
  "connect_at nodes j =
     (if j \<in> set nodes \<and> j \<noteq> ''s'' \<and> j \<noteq> ''t'' then Inr (Var (connect j))
      else Inl (KeyError_node j))"

definition cut_constr :: "node list \<Rightarrow> arc \<Rightarrow> error + TempConstr" where
  "cut_constr nodes a =
     (let i = fst a; j = snd a in
      if i = ''s'' then
        (case connect_at nodes j of
           Inl e \<Rightarrow> Inl e
         | Inr zj \<Rightarrow> Inr (Constr (Add (Var (remove (''s'', j))) zj) GE (Num 1)))
      else if j = ''t'' then
        (case connect_at nodes i of
           Inl e \<Rightarrow> Inl e
         | Inr zi \<Rightarrow> Inr (Constr (Sub (Var (remove (i, ''t''))) zi) GE (Num 0)))
      else
        (case connect_at nodes j of
           Inl e \<Rightarrow> Inl e
         | Inr zj \<Rightarrow>
             (case connect_at nodes i of
                Inl e \<Rightarrow> Inl e
              | Inr zi \<Rightarrow> Inr (Constr (Sub (Add (Var (remove (i, j))) zj) zi) GE (Num 0)))))"

definition min_cut_model :: "node list \<Rightarrow> arc list \<Rightarrow> (arc \<rightharpoonup> real) \<Rightarrow> error + Model" where
  "min_cut_model nodes arcs capacity =
     (let m = new_Model\<lparr>ModelSense := 1\<rparr> in
      case addVars m (map (\<lambda>a. (remove a, obj_of capacity a)) arcs) of
        Inl e \<Rightarrow> Inl e
      | Inr m \<Rightarrow>
          (case addVars m (map (\<lambda>i. (connect i, 0))
                             (filter (\<lambda>i. i \<noteq> ''s'' \<and> i \<noteq> ''t'') nodes)) of
             Inl e \<Rightarrow> Inl e
           | Inr m \<Rightarrow>
               (case for_each (cut_constr nodes) arcs of
                  Inl e \<Rightarrow> Inl e
                | Inr ks \<Rightarrow> Inr (foldl addConstr m ks))))"

section \<open>The solver and the two functions\<close>

text \<open>
  What an assignment of the variables has to satisfy, and what the solver's statuses
  mean. The solver is a parameter of the two functions: a function from a model to a
  status and an assignment.
\<close>

definition feasible :: "Model \<Rightarrow> (var \<Rightarrow> real) \<Rightarrow> bool" where
  "feasible m x \<longleftrightarrow> (\<forall>v \<in> set (vars m). 0 \<le> x v) \<and> (\<forall>c \<in> set (constrs m). satisfies x c)"

definition ObjVal :: "Model \<Rightarrow> (var \<Rightarrow> real) \<Rightarrow> real" where
  "ObjVal m x = lin_value x (objective m)"

definition better_eq :: "Model \<Rightarrow> real \<Rightarrow> real \<Rightarrow> bool" where
  "better_eq m a b \<longleftrightarrow> (if ModelSense m = - 1 then b \<le> a else a \<le> b)"

definition optimal :: "Model \<Rightarrow> (var \<Rightarrow> real) \<Rightarrow> bool" where
  "optimal m x \<longleftrightarrow> feasible m x \<and> (\<forall>y. feasible m y \<longrightarrow> better_eq m (ObjVal m x) (ObjVal m y))"

definition optimal_value :: "Model \<Rightarrow> real \<Rightarrow> bool" where
  "optimal_value m v \<longleftrightarrow> (\<exists>x. optimal m x \<and> ObjVal m x = v)"

datatype Status = OPTIMAL | INFEASIBLE | INF_OR_UNBD | UNBOUNDED

type_synonym solver = "Model \<Rightarrow> Status \<times> (var \<Rightarrow> real)"

definition exact_solver :: "solver \<Rightarrow> bool" where
  "exact_solver solve \<longleftrightarrow>
     (\<forall>m. case solve m of
            (OPTIMAL, x) \<Rightarrow> optimal m x
          | (INFEASIBLE, x) \<Rightarrow> \<not> (\<exists>y. feasible m y)
          | (INF_OR_UNBD, x) \<Rightarrow> \<not> (\<exists>y. optimal m y)
          | (UNBOUNDED, x) \<Rightarrow> (\<exists>y. feasible m y) \<and> \<not> (\<exists>y. optimal m y))"

text \<open>
  \<^verbatim>\<open>
  m.optimize()
  if m.status == GRB.OPTIMAL:
      solution = m.getAttr('x', flow)
      print('\nOptimal flows')
      for i, j in arcs:
          if solution[i, j] > 0:
              print('%s -> %s: %g' % (i, j, solution[i, j]))
  \<close>
  Both functions return \<^verbatim>\<open>None\<close>; what a call produces is what it prints and the
  exception that ends it, if one does. A call is modelled by the lines printed, in
  order, and the error raised, if any.
\<close>

datatype line = Optimal_flows | Optimal_cuts | Arc_line node node real

type_synonym run = "line list \<times> error option"

definition max_flow :: "solver \<Rightarrow> node list \<Rightarrow> arc list \<Rightarrow> (arc \<rightharpoonup> real) \<Rightarrow> run" where
  "max_flow solve nodes arcs capacity =
     (case max_flow_model nodes arcs capacity of
        Inl e \<Rightarrow> ([], Some e)
      | Inr m \<Rightarrow>
          (case solve m of
             (OPTIMAL, solution) \<Rightarrow>
               (Optimal_flows #
                  map (\<lambda>a. Arc_line (fst a) (snd a) (solution (flow a)))
                    (filter (\<lambda>a. solution (flow a) > 0) arcs),
                None)
           | _ \<Rightarrow> ([], None)))"

text \<open>
  \<^verbatim>\<open>
  m.optimize()
  if m.status == GRB.OPTIMAL:
      solution = m.getAttr('x', remove)
      print('\nOptimal cuts')
      for i, j in arcs:
          if solution[i, j] > 0.5:
              print('%s -> %s: %g' % (i, j, capacity[i, j]))
  \<close>
  The loop looks \<^verbatim>\<open>capacity[i, j]\<close> up for the arcs it prints; this is the first
  place where \<^verbatim>\<open>min_cut\<close> indexes \<^verbatim>\<open>capacity\<close>, and a missing key ends the call
  with \<^verbatim>\<open>KeyError\<close> after the heading and the earlier lines are printed.
\<close>

definition selected :: "arc list \<Rightarrow> (var \<Rightarrow> real) \<Rightarrow> arc list" where
  "selected arcs solution = filter (\<lambda>a. solution (remove a) > 0.5) arcs"

fun print_cuts :: "(arc \<rightharpoonup> real) \<Rightarrow> arc list \<Rightarrow> line list \<Rightarrow> run" where
  "print_cuts capacity [] out = (out, None)"
| "print_cuts capacity (a # as) out =
     (case capacity a of
        None \<Rightarrow> (out, Some (KeyError_arc a))
      | Some c \<Rightarrow> print_cuts capacity as (out @ [Arc_line (fst a) (snd a) c]))"

definition min_cut :: "solver \<Rightarrow> node list \<Rightarrow> arc list \<Rightarrow> (arc \<rightharpoonup> real) \<Rightarrow> run" where
  "min_cut solve nodes arcs capacity =
     (case min_cut_model nodes arcs capacity of
        Inl e \<Rightarrow> ([], Some e)
      | Inr m \<Rightarrow>
          (case solve m of
             (OPTIMAL, solution) \<Rightarrow> print_cuts capacity (selected arcs solution) [Optimal_cuts]
           | _ \<Rightarrow> ([], None)))"

text \<open>The data of the notebook.\<close>

definition nodes0 :: "node list" where
  "nodes0 = [''s'', ''A'', ''B'', ''C'', ''D'', ''t'']"

definition capacity0 :: "arc \<rightharpoonup> real" where
  "capacity0 = map_of
     [((''s'', ''A''), 100), ((''s'', ''B''), 150), ((''A'', ''B''), 120), ((''A'', ''C''), 90),
      ((''B'', ''D''), 110), ((''C'', ''D''), 120), ((''C'', ''t''), 140), ((''D'', ''t''), 90)]"

definition arcs0 :: "arc list" where
  "arcs0 = [(''s'', ''A''), (''s'', ''B''), (''A'', ''B''), (''A'', ''C''),
            (''B'', ''D''), (''C'', ''D''), (''C'', ''t''), (''D'', ''t'')]"

section \<open>Notions used to state the properties\<close>

text \<open>The nodes that have a \<^verbatim>\<open>connect\<close> variable and a conservation constraint.\<close>

definition interior :: "node list \<Rightarrow> node set" where
  "interior nodes = {j \<in> set nodes. j \<noteq> ''s'' \<and> j \<noteq> ''t''}"

text \<open>The flow leaving and entering a node, for per-arc values \<open>f\<close>.\<close>

definition outflow :: "arc list \<Rightarrow> (arc \<Rightarrow> real) \<Rightarrow> node \<Rightarrow> real" where
  "outflow arcs f j = (\<Sum>a\<leftarrow>filter (\<lambda>a. fst a = j) arcs. f a)"

definition inflow :: "arc list \<Rightarrow> (arc \<Rightarrow> real) \<Rightarrow> node \<Rightarrow> real" where
  "inflow arcs f j = (\<Sum>a\<leftarrow>filter (\<lambda>a. snd a = j) arcs. f a)"

text \<open>
  The lookups of \<^verbatim>\<open>connect\<close> that the loop of \<^verbatim>\<open>min_cut\<close> makes for an arc succeed,
  and the constraint it then adds.
\<close>

definition cut_keys :: "node list \<Rightarrow> arc \<Rightarrow> bool" where
  "cut_keys nodes a \<longleftrightarrow>
     (if fst a = ''s'' then snd a \<in> interior nodes
      else if snd a = ''t'' then fst a \<in> interior nodes
      else snd a \<in> interior nodes \<and> fst a \<in> interior nodes)"

definition cut_row :: "arc \<Rightarrow> TempConstr" where
  "cut_row a =
     (if fst a = ''s'' then Constr (Add (Var (remove a)) (Var (connect (snd a)))) GE (Num 1)
      else if snd a = ''t'' then Constr (Sub (Var (remove a)) (Var (connect (fst a)))) GE (Num 0)
      else Constr (Sub (Add (Var (remove a)) (Var (connect (snd a)))) (Var (connect (fst a))))
             GE (Num 0))"

text \<open>
  The node potential of an assignment of the cut model: the value of \<^verbatim>\<open>connect\<close> at an
  interior node, \<open>1\<close> at \<^verbatim>\<open>"s"\<close> and \<open>0\<close> at \<^verbatim>\<open>"t"\<close>.
\<close>

definition potential :: "(var \<Rightarrow> real) \<Rightarrow> node \<Rightarrow> real" where
  "potential y j = (if j = ''s'' then 1 else if j = ''t'' then 0 else y (connect j))"

text \<open>
  A valid network in the sense of the specification, for the source \<^verbatim>\<open>"s"\<close> and the
  sink \<^verbatim>\<open>"t"\<close> that the two functions fix: the nodes and the arcs are listed once, source
  and sink are nodes, every arc joins two different nodes of the list and has a capacity
  that is not negative.
\<close>

definition valid_network :: "node list \<Rightarrow> arc list \<Rightarrow> (arc \<rightharpoonup> real) \<Rightarrow> bool" where
  "valid_network nodes arcs capacity \<longleftrightarrow>
     distinct nodes \<and> distinct arcs \<and> ''s'' \<in> set nodes \<and> ''t'' \<in> set nodes \<and>
     (\<forall>a \<in> set arcs. fst a \<in> set nodes \<and> snd a \<in> set nodes \<and> fst a \<noteq> snd a \<and>
        (\<exists>c. capacity a = Some c \<and> 0 \<le> c))"

text \<open>A set of arcs is a cut when every path of arcs from \<^verbatim>\<open>"s"\<close> to \<^verbatim>\<open>"t"\<close> uses one of them.\<close>

definition separates :: "arc list \<Rightarrow> arc set \<Rightarrow> bool" where
  "separates arcs C \<longleftrightarrow> (''s'', ''t'') \<notin> (set arcs - C)\<^sup>*"

text \<open>
  A maximum flow and a minimum cut of the notebook's network, as assignments of the
  variables of the two models.
\<close>

definition flow0 :: "var \<Rightarrow> real" where
  "flow0 v = (if v \<in> {flow (''s'', ''A''), flow (''s'', ''B''), flow (''A'', ''C''),
                        flow (''B'', ''D''), flow (''C'', ''t''), flow (''D'', ''t'')} then 90 else 0)"

definition cut0 :: "var \<Rightarrow> real" where
  "cut0 v = (if v \<in> {remove (''A'', ''C''), remove (''D'', ''t''),
                       connect ''A'', connect ''B'', connect ''D''} then 1 else 0)"

text \<open>The network with the single arc from \<^verbatim>\<open>"s"\<close> to \<^verbatim>\<open>"t"\<close>, of capacity 50.\<close>

definition nodes1 :: "node list" where
  "nodes1 = [''s'', ''t'']"

definition arcs1 :: "arc list" where
  "arcs1 = [(''s'', ''t'')]"

definition capacity1 :: "arc \<rightharpoonup> real" where
  "capacity1 = [(''s'', ''t'') \<mapsto> 50]"

text \<open>
  A network with a negative capacity, a network whose source and sink are not named
  \<^verbatim>\<open>"s"\<close> and \<^verbatim>\<open>"t"\<close> while two inner nodes are, a network with one arc between a
  source \<^verbatim>\<open>"a"\<close> and a sink \<^verbatim>\<open>"b"\<close>, a network with an arc back into \<^verbatim>\<open>"s"\<close>, and a
  network whose sink cannot be reached.
\<close>

definition nodes2 :: "node list" where
  "nodes2 = [''s'', ''A'', ''t'']"

definition arcs2 :: "arc list" where
  "arcs2 = [(''s'', ''A''), (''A'', ''t'')]"

definition capacity2 :: "arc \<rightharpoonup> real" where
  "capacity2 = [(''s'', ''A'') \<mapsto> - 1, (''A'', ''t'') \<mapsto> 1]"

definition nodes3 :: "node list" where
  "nodes3 = [''a'', ''s'', ''t'', ''b'']"

definition arcs3 :: "arc list" where
  "arcs3 = [(''a'', ''s''), (''s'', ''t''), (''t'', ''b'')]"

definition capacity3 :: "arc \<rightharpoonup> real" where
  "capacity3 = [(''a'', ''s'') \<mapsto> 5, (''s'', ''t'') \<mapsto> 7, (''t'', ''b'') \<mapsto> 5]"

definition nodes4 :: "node list" where
  "nodes4 = [''a'', ''b'']"

definition arcs4 :: "arc list" where
  "arcs4 = [(''a'', ''b'')]"

definition capacity4 :: "arc \<rightharpoonup> real" where
  "capacity4 = [(''a'', ''b'') \<mapsto> 5]"

definition arcs5 :: "arc list" where
  "arcs5 = [(''s'', ''A''), (''A'', ''s'')]"

definition capacity5 :: "arc \<rightharpoonup> real" where
  "capacity5 = [(''s'', ''A'') \<mapsto> 1, (''A'', ''s'') \<mapsto> 1]"

definition arcs6 :: "arc list" where
  "arcs6 = [(''s'', ''A'')]"

definition capacity6 :: "arc \<rightharpoonup> real" where
  "capacity6 = [(''s'', ''A'') \<mapsto> 5]"

text \<open>
  The assignment of the cut model given by a set \<open>S\<close> of nodes: an arc is removed when
  it leaves \<open>S\<close>, a node is connected when it lies in \<open>S\<close>.
\<close>

definition cut_of :: "node set \<Rightarrow> var \<Rightarrow> real" where
  "cut_of S v =
     (case v of
        remove a \<Rightarrow> if fst a \<in> S \<and> snd a \<notin> S then 1 else 0
      | connect j \<Rightarrow> if j \<in> S then 1 else 0
      | flow a \<Rightarrow> 0)"

text \<open>The assignment of the flow model given by per-arc values.\<close>

definition flow_of :: "(arc \<Rightarrow> real) \<Rightarrow> var \<Rightarrow> real" where
  "flow_of f v = (case v of flow a \<Rightarrow> f a | _ \<Rightarrow> 0)"

text \<open>
  The nodes that can be reached from \<^verbatim>\<open>"s"\<close> in the residual network of per-arc flow
  values \<open>f\<close> under the capacities \<open>c\<close>: forwards along an arc that is not full,
  backwards along an arc that carries flow.
\<close>

inductive_set residual :: "arc list \<Rightarrow> (arc \<Rightarrow> real) \<Rightarrow> (arc \<Rightarrow> real) \<Rightarrow> node set"
  for arcs :: "arc list" and c :: "arc \<Rightarrow> real" and f :: "arc \<Rightarrow> real"
  where
    source: "''s'' \<in> residual arcs c f"
  | forward: "i \<in> residual arcs c f \<Longrightarrow> (i, j) \<in> set arcs \<Longrightarrow> f (i, j) < c (i, j) \<Longrightarrow>
       j \<in> residual arcs c f"
  | backward: "j \<in> residual arcs c f \<Longrightarrow> (i, j) \<in> set arcs \<Longrightarrow> 0 < f (i, j) \<Longrightarrow>
       i \<in> residual arcs c f"

text \<open>
  A change \<open>d\<close> of the flow that moves one unit from \<^verbatim>\<open>"s"\<close> to the node \<open>v\<close> and
  that \<open>f\<close> leaves room for: it is positive only on arcs that are not full and
  negative only on arcs that carry flow.
\<close>

definition pushes :: "arc list \<Rightarrow> (arc \<Rightarrow> real) \<Rightarrow> (arc \<Rightarrow> real) \<Rightarrow> node \<Rightarrow> (arc \<Rightarrow> real) \<Rightarrow> bool" where
  "pushes arcs c f v d \<longleftrightarrow>
     (\<forall>a \<in> set arcs. (0 < d a \<longrightarrow> f a < c a) \<and> (d a < 0 \<longrightarrow> 0 < f a)) \<and>
     (\<forall>j. outflow arcs d j - inflow arcs d j =
          (if j = ''s'' then 1 else 0) - (if j = v then 1 else 0))"

text \<open>
  The path \<open>s, A, t\<close> with both capacities 1, and the assignment of its cut model
  that gives every variable the value one half.
\<close>

definition capacity7 :: "arc \<rightharpoonup> real" where
  "capacity7 = [(''s'', ''A'') \<mapsto> 1, (''A'', ''t'') \<mapsto> 1]"

definition half :: "var \<Rightarrow> real" where
  "half v = 1 / 2"

text \<open>
  Per-arc values \<open>f\<close> are a flow under the capacities \<open>c\<close>: between 0 and the
  capacity on every arc, and conserved at every node other than \<^verbatim>\<open>"s"\<close> and \<^verbatim>\<open>"t"\<close>.
\<close>

definition is_flow :: "node list \<Rightarrow> arc list \<Rightarrow> (arc \<Rightarrow> real) \<Rightarrow> (arc \<Rightarrow> real) \<Rightarrow> bool" where
  "is_flow nodes arcs c f \<longleftrightarrow>
     (\<forall>a \<in> set arcs. 0 \<le> f a \<and> f a \<le> c a) \<and>
     (\<forall>j \<in> interior nodes. outflow arcs f j = inflow arcs f j)"

text \<open>
  A flow of the largest value, the value of a flow being what leaves \<^verbatim>\<open>"s"\<close>: the
  quantity that \<^verbatim>\<open>max_flow\<close> maximises.
\<close>

definition is_max_flow :: "node list \<Rightarrow> arc list \<Rightarrow> (arc \<Rightarrow> real) \<Rightarrow> (arc \<Rightarrow> real) \<Rightarrow> bool" where
  "is_max_flow nodes arcs c f \<longleftrightarrow>
     is_flow nodes arcs c f \<and>
     (\<forall>g. is_flow nodes arcs c g \<longrightarrow> outflow arcs g ''s'' \<le> outflow arcs f ''s'')"

text \<open>No arc starts or ends at a node whose name is the wildcard \<^verbatim>\<open>'*'\<close>.\<close>

definition star_free :: "arc list \<Rightarrow> bool" where
  "star_free arcs \<longleftrightarrow> (\<forall>a \<in> set arcs. fst a \<noteq> ''*'' \<and> snd a \<noteq> ''*'')"






definition capacity9 :: "arc \<rightharpoonup> real" where
  "capacity9 = [(''A'', ''t'') \<mapsto> 1]"

section \<open>The shape of the two models\<close>

lemma for_each_Inr_iff: "for_each f xs = Inr ys \<longleftrightarrow> map f xs = map Inr ys"
proof (induction xs arbitrary: ys)
  case Nil
  then show ?case by auto
next
  case (Cons a xs)
  show ?case
  proof (cases "f a")
    case (Inl e)
    then show ?thesis by (cases ys) auto
  next
    case (Inr b)
    show ?thesis
    proof (cases "for_each f xs")
      case (Inl e)
      with Cons.IH have "\<And>zs. map f xs \<noteq> map Inr zs" by simp
      with Inl Inr show ?thesis by (cases ys) auto
    next
      case R: (Inr bs)
      with Cons.IH[of bs] have "map f xs = map Inr bs" by simp
      with R Inr show ?thesis by (cases ys) (auto simp: inj_map_eq_map)
    qed
  qed
qed

lemma for_each_Inl: "for_each f xs = Inl e \<Longrightarrow> \<exists>x \<in> set xs. f x = Inl e"
  by (induction xs) (auto split: sum.splits)

lemma for_each_cap_constr:
  "for_each (cap_constr arcs capacity) as = Inr cs \<longleftrightarrow>
     set as \<subseteq> dom capacity \<and>
     cs = map (\<lambda>a. Constr (flow_sum arcs (fst a) (snd a)) LE (Num (the (capacity a)))) as"
  unfolding for_each_Inr_iff
  by (induction as arbitrary: cs) (auto simp: cap_constr_def capacity_at_def split: option.splits)

lemma for_each_cap_constr_Inl:
  assumes "for_each (cap_constr arcs capacity) as = Inl e"
  shows "\<exists>a \<in> set as. e = KeyError_arc a \<and> capacity a = None"
proof -
  from for_each_Inl[OF assms] obtain a where "a \<in> set as" "cap_constr arcs capacity a = Inl e"
    by blast
  then show ?thesis
    by (auto simp: cap_constr_def capacity_at_def split: option.splits)
qed

lemma addVars_flow:
  "addVars m (map (\<lambda>a. (flow a, c a)) arcs) =
     (if distinct arcs
      then Inr (m\<lparr>vars := vars m @ map flow arcs,
                  objective := Add (objective m)
                    (quicksum (map (\<lambda>a. Scale (c a) (Var (flow a))) arcs))\<rparr>)
      else Inl KeyError_duplicate)"
  by (simp add: addVars_def distinct_map comp_def inj_on_def)

lemma addVars_remove:
  "addVars m (map (\<lambda>a. (remove a, c a)) arcs) =
     (if distinct arcs
      then Inr (m\<lparr>vars := vars m @ map remove arcs,
                  objective := Add (objective m)
                    (quicksum (map (\<lambda>a. Scale (c a) (Var (remove a))) arcs))\<rparr>)
      else Inl KeyError_duplicate)"
  by (simp add: addVars_def distinct_map comp_def inj_on_def)

lemma addVars_connect:
  "addVars m (map (\<lambda>i. (connect i, c i)) ns) =
     (if distinct ns
      then Inr (m\<lparr>vars := vars m @ map connect ns,
                  objective := Add (objective m)
                    (quicksum (map (\<lambda>i. Scale (c i) (Var (connect i))) ns))\<rparr>)
      else Inl KeyError_duplicate)"
  by (simp add: addVars_def distinct_map comp_def inj_on_def)

lemma lin_value_flow_sum:
  "lin_value x (flow_sum arcs p q) =
     (\<Sum>a\<leftarrow>filter (\<lambda>a. matches p (fst a) \<and> matches q (snd a)) arcs. x (flow a))"
  by (simp add: flow_sum_def comp_def)

lemma flow_sum_out:
  "j \<noteq> ''*'' \<Longrightarrow> lin_value x (flow_sum arcs j ''*'') = outflow arcs (x \<circ> flow) j"
  by (simp add: flow_sum_def outflow_def comp_def matches_def eq_commute[of j])

lemma flow_sum_in:
  "j \<noteq> ''*'' \<Longrightarrow> lin_value x (flow_sum arcs ''*'' j) = inflow arcs (x \<circ> flow) j"
  by (simp add: flow_sum_def inflow_def comp_def matches_def eq_commute[of j])

lemma flow_sum_arc:
  assumes "fst a \<noteq> ''*''" and "snd a \<noteq> ''*''"
  shows "lin_value x (flow_sum arcs (fst a) (snd a)) =
         (\<Sum>b\<leftarrow>filter (\<lambda>b. b = a) arcs. x (flow b))"
proof -
  have "\<And>b::arc. (fst a = fst b \<and> snd a = snd b) = (b = a)" by (auto simp: prod_eq_iff)
  with assms show ?thesis by (simp add: flow_sum_def comp_def matches_def)
qed

lemma member_le_sum_filter:
  assumes "a \<in> set arcs" and "P a" and "\<forall>b \<in> set arcs. (0::real) \<le> g b"
  shows "g a \<le> (\<Sum>b\<leftarrow>filter P arcs. g b)"
  using assms
proof (induction arcs)
  case Nil
  then show ?case by simp
next
  case (Cons b bs)
  have nn: "0 \<le> (\<Sum>b\<leftarrow>filter P bs. g b)"
    by (rule sum_list_nonneg) (use Cons.prems(3) in auto)
  from Cons.prems(3) have gb: "0 \<le> g b" by simp
  show ?case
  proof (cases "b = a")
    case True
    then show ?thesis using nn Cons.prems(2) by simp
  next
    case False
    with Cons have "g a \<le> (\<Sum>b\<leftarrow>filter P bs. g b)" by simp
    with gb show ?thesis by simp
  qed
qed

lemma flow_sum_ge:
  assumes "a \<in> set arcs" and "\<forall>b \<in> set arcs. 0 \<le> x (flow b)"
  shows "x (flow a) \<le> lin_value x (flow_sum arcs (fst a) (snd a))"
  unfolding lin_value_flow_sum
  by (rule member_le_sum_filter[OF assms(1) _ assms(2)]) (simp add: matches_def)

lemma filter_eq_single:
  assumes "distinct arcs" and "a \<in> set arcs"
  shows "filter (\<lambda>b. b = a) arcs = [a]"
  using assms
proof (induction arcs)
  case Nil
  then show ?case by simp
next
  case (Cons b bs)
  show ?case
  proof (cases "b = a")
    case True
    with Cons.prems have "a \<notin> set bs" by simp
    then have "filter (\<lambda>b. b = a) bs = []" by (auto simp: filter_empty_conv)
    with True show ?thesis by simp
  next
    case False
    with Cons show ?thesis by simp
  qed
qed

lemma max_flow_model_Inr:
  "max_flow_model nodes arcs capacity = Inr m \<longleftrightarrow>
     distinct arcs \<and> set arcs \<subseteq> dom capacity \<and>
     m = \<lparr>vars = map flow arcs,
          objective = quicksum (map (\<lambda>a. Var (flow a)) (filter (\<lambda>a. fst a = ''s'') arcs)),
          ModelSense = - 1,
          constrs = map (\<lambda>a. Constr (flow_sum arcs (fst a) (snd a)) LE
                                (Num (the (capacity a)))) arcs @
                    map (node_constr arcs) (filter (\<lambda>j. j \<noteq> ''s'' \<and> j \<noteq> ''t'') nodes)\<rparr>"
proof (cases "distinct arcs")
  case False
  then show ?thesis by (simp add: max_flow_model_def addVars_flow)
next
  case d: True
  show ?thesis
  proof (cases "for_each (cap_constr arcs capacity) arcs")
    case (Inl e)
    then have "\<not> set arcs \<subseteq> dom capacity"
      using for_each_cap_constr[of arcs capacity arcs] by auto
    with Inl d show ?thesis by (simp add: max_flow_model_def addVars_flow)
  next
    case (Inr cs)
    then show ?thesis
      using for_each_cap_constr[of arcs capacity arcs cs] d
      by (auto simp: max_flow_model_def addVars_flow setObjective_def
          addConstrs_def new_Model_def comp_def)
  qed
qed

lemma max_flow_model_Inl:
  assumes "max_flow_model nodes arcs capacity = Inl e"
  shows "(e = KeyError_duplicate \<and> \<not> distinct arcs) \<or>
         (\<exists>a \<in> set arcs. e = KeyError_arc a \<and> capacity a = None)"
proof (cases "distinct arcs")
  case False
  with assms show ?thesis by (simp add: max_flow_model_def addVars_flow)
next
  case True
  with assms have "for_each (cap_constr arcs capacity) arcs = Inl e"
    by (simp add: max_flow_model_def addVars_flow split: sum.splits)
  from for_each_cap_constr_Inl[OF this] show ?thesis by blast
qed

lemma feasible_max_flow_rows:
  assumes "max_flow_model nodes arcs capacity = Inr m"
  shows "feasible m x \<longleftrightarrow>
     (\<forall>a \<in> set arcs. 0 \<le> x (flow a)) \<and>
     (\<forall>a \<in> set arcs. lin_value x (flow_sum arcs (fst a) (snd a)) \<le> the (capacity a)) \<and>
     (\<forall>j \<in> interior nodes.
        lin_value x (flow_sum arcs j ''*'') = lin_value x (flow_sum arcs ''*'' j))"
  using assms unfolding max_flow_model_Inr
  by (simp add: feasible_def node_constr_def interior_def ball_Un)

lemma inflow_source:
  assumes "\<forall>a \<in> set arcs. snd a \<noteq> j"
  shows "inflow arcs f j = 0"
proof -
  have "filter (\<lambda>a. snd a = j) arcs = []" using assms by (simp add: filter_empty_conv)
  then show ?thesis by (simp add: inflow_def)
qed

lemma outflow_sink:
  assumes "\<forall>a \<in> set arcs. fst a \<noteq> j"
  shows "outflow arcs f j = 0"
proof -
  have "filter (\<lambda>a. fst a = j) arcs = []" using assms by (simp add: filter_empty_conv)
  then show ?thesis by (simp add: outflow_def)
qed

lemma feasible_max_flow:
  assumes m: "max_flow_model nodes arcs capacity = Inr m" and sf: "star_free arcs"
  shows "feasible m x \<longleftrightarrow> is_flow nodes arcs (\<lambda>a. the (capacity a)) (x \<circ> flow)"
proof -
  from m have dist: "distinct arcs" unfolding max_flow_model_Inr by simp
  have row: "lin_value x (flow_sum arcs (fst a) (snd a)) = x (flow a)" if "a \<in> set arcs" for a
  proof -
    from sf that have "fst a \<noteq> ''*''" "snd a \<noteq> ''*''" by (simp_all add: star_free_def)
    then show ?thesis
      by (simp add: flow_sum_arc filter_eq_single[OF dist that])
  qed
  have node: "lin_value x (flow_sum arcs j ''*'') = lin_value x (flow_sum arcs ''*'' j) \<longleftrightarrow>
      outflow arcs (x \<circ> flow) j = inflow arcs (x \<circ> flow) j" for j
  proof (cases "j = ''*''")
    case True
    have "outflow arcs (x \<circ> flow) ''*'' = 0"
      by (rule outflow_sink) (use sf in \<open>simp add: star_free_def\<close>)
    moreover have "inflow arcs (x \<circ> flow) ''*'' = 0"
      by (rule inflow_source) (use sf in \<open>simp add: star_free_def\<close>)
    ultimately show ?thesis using True by simp
  next
    case False
    then show ?thesis by (simp add: flow_sum_out flow_sum_in)
  qed
  show ?thesis
    unfolding feasible_max_flow_rows[OF m] is_flow_def node
    using row by auto
qed

lemma ObjVal_max_flow:
  assumes "max_flow_model nodes arcs capacity = Inr m"
  shows "ObjVal m x = outflow arcs (x \<circ> flow) ''s''"
  using assms unfolding max_flow_model_Inr
  by (simp add: ObjVal_def outflow_def comp_def)

lemma flow_bounds:
  assumes m: "max_flow_model nodes arcs capacity = Inr m" and x: "feasible m x"
    and a: "a \<in> set arcs"
  shows "\<exists>c. capacity a = Some c \<and> 0 \<le> x (flow a) \<and> x (flow a) \<le> c"
proof -
  from m a obtain c where c: "capacity a = Some c"
    unfolding max_flow_model_Inr by auto
  from x have f0: "\<forall>a \<in> set arcs. 0 \<le> x (flow a)"
    and cap: "\<forall>a \<in> set arcs. lin_value x (flow_sum arcs (fst a) (snd a)) \<le> the (capacity a)"
    unfolding feasible_max_flow_rows[OF m] by simp_all
  have "x (flow a) \<le> lin_value x (flow_sum arcs (fst a) (snd a))"
    by (rule flow_sum_ge[OF a f0])
  also have "\<dots> \<le> the (capacity a)" using cap a by blast
  finally show ?thesis using c f0 a by simp
qed


lemma cut_constr_Inr: "cut_constr nodes a = Inr k \<longleftrightarrow> cut_keys nodes a \<and> k = cut_row a"
  by (cases a) (auto simp: cut_constr_def cut_keys_def cut_row_def connect_at_def interior_def
      Let_def split: sum.splits if_splits)

lemma for_each_cut_constr:
  "for_each (cut_constr nodes) as = Inr ks \<longleftrightarrow>
     (\<forall>a \<in> set as. cut_keys nodes a) \<and> ks = map cut_row as"
  unfolding for_each_Inr_iff
proof (induction as arbitrary: ks)
  case Nil
  then show ?case by auto
next
  case (Cons a as)
  show ?case
    by (cases ks) (auto simp: Cons.IH cut_constr_Inr)
qed

lemma foldl_addConstr: "foldl addConstr m ks = addConstrs m ks"
proof (induction ks arbitrary: m)
  case Nil
  show ?case by (simp add: addConstrs_def)
next
  case (Cons k ks)
  have "foldl addConstr m (k # ks) = addConstrs (addConstr m k) ks"
    by (simp add: Cons)
  also have "\<dots> = addConstrs m (k # ks)"
    by (simp add: addConstr_def addConstrs_def)
  finally show ?case .
qed

lemma cut_constr_Inl:
  assumes "cut_constr nodes a = Inl e"
  shows "\<not> cut_keys nodes a \<and> (e = KeyError_node (fst a) \<or> e = KeyError_node (snd a))"
  using assms
  by (cases a) (auto simp: cut_constr_def cut_keys_def connect_at_def interior_def
      Let_def split: sum.splits if_splits)

lemma min_cut_model_Inr:
  "min_cut_model nodes arcs capacity = Inr m \<longleftrightarrow>
     distinct arcs \<and> distinct (filter (\<lambda>i. i \<noteq> ''s'' \<and> i \<noteq> ''t'') nodes) \<and>
     (\<forall>a \<in> set arcs. cut_keys nodes a) \<and>
     m = \<lparr>vars = map remove arcs @
                 map connect (filter (\<lambda>i. i \<noteq> ''s'' \<and> i \<noteq> ''t'') nodes),
          objective =
            Add (Add (Num 0)
                   (quicksum (map (\<lambda>a. Scale (obj_of capacity a) (Var (remove a))) arcs)))
              (quicksum (map (\<lambda>i. Scale 0 (Var (connect i)))
                           (filter (\<lambda>i. i \<noteq> ''s'' \<and> i \<noteq> ''t'') nodes))),
          ModelSense = 1,
          constrs = map cut_row arcs\<rparr>"
proof (cases "distinct arcs \<and> distinct (filter (\<lambda>i. i \<noteq> ''s'' \<and> i \<noteq> ''t'') nodes)")
  case False
  then show ?thesis
    by (auto simp: min_cut_model_def Let_def addVars_remove addVars_connect)
next
  case d: True
  show ?thesis
  proof (cases "for_each (cut_constr nodes) arcs")
    case (Inl e)
    then have "\<not> (\<forall>a \<in> set arcs. cut_keys nodes a)"
      using for_each_cut_constr[of nodes arcs] by auto
    with Inl d show ?thesis
      by (simp add: min_cut_model_def Let_def addVars_remove addVars_connect)
  next
    case (Inr ks)
    then have "(\<forall>a \<in> set arcs. cut_keys nodes a)" and "ks = map cut_row arcs"
      using for_each_cut_constr[of nodes arcs ks] by auto
    with Inr d show ?thesis
      by (auto simp: min_cut_model_def Let_def addVars_remove addVars_connect foldl_addConstr addConstrs_def new_Model_def comp_def)
  qed
qed

lemma min_cut_model_Inl:
  assumes "min_cut_model nodes arcs capacity = Inl e"
  shows "(e = KeyError_duplicate \<and>
          \<not> (distinct arcs \<and> distinct (filter (\<lambda>i. i \<noteq> ''s'' \<and> i \<noteq> ''t'') nodes))) \<or>
         (\<exists>a \<in> set arcs. \<not> cut_keys nodes a \<and>
            (e = KeyError_node (fst a) \<or> e = KeyError_node (snd a)))"
proof (cases "distinct arcs \<and> distinct (filter (\<lambda>i. i \<noteq> ''s'' \<and> i \<noteq> ''t'') nodes)")
  case False
  with assms show ?thesis
    by (auto simp: min_cut_model_def Let_def addVars_remove addVars_connect split: if_splits)
next
  case True
  with assms have "for_each (cut_constr nodes) arcs = Inl e"
    by (simp add: min_cut_model_def Let_def addVars_remove addVars_connect split: sum.splits)
  from for_each_Inl[OF this] obtain a where "a \<in> set arcs" "cut_constr nodes a = Inl e"
    by blast
  with cut_constr_Inl show ?thesis by blast
qed

lemma satisfies_cut_row:
  "cut_keys nodes a \<Longrightarrow>
     satisfies y (cut_row a) \<longleftrightarrow> potential y (fst a) - potential y (snd a) \<le> y (remove a)"
  by (auto simp: cut_keys_def cut_row_def potential_def interior_def split: if_splits)

lemma feasible_min_cut:
  assumes "min_cut_model nodes arcs capacity = Inr m"
  shows "feasible m y \<longleftrightarrow>
     (\<forall>a \<in> set arcs. 0 \<le> y (remove a)) \<and>
     (\<forall>j \<in> interior nodes. 0 \<le> y (connect j)) \<and>
     (\<forall>a \<in> set arcs. potential y (fst a) - potential y (snd a) \<le> y (remove a))"
proof -
  from assms have keys: "\<forall>a \<in> set arcs. cut_keys nodes a"
    and vs: "vars m = map remove arcs @ map connect (filter (\<lambda>i. i \<noteq> ''s'' \<and> i \<noteq> ''t'') nodes)"
    and cs: "constrs m = map cut_row arcs"
    unfolding min_cut_model_Inr by simp_all
  have row: "satisfies y (cut_row a) \<longleftrightarrow> potential y (fst a) - potential y (snd a) \<le> y (remove a)"
    if "a \<in> set arcs" for a
    using keys that satisfies_cut_row by blast
  have "(\<forall>c \<in> set (constrs m). satisfies y c) \<longleftrightarrow>
        (\<forall>a \<in> set arcs. potential y (fst a) - potential y (snd a) \<le> y (remove a))"
    unfolding cs set_map using row by blast
  moreover have "(\<forall>v \<in> set (vars m). 0 \<le> y v) \<longleftrightarrow>
        (\<forall>a \<in> set arcs. 0 \<le> y (remove a)) \<and> (\<forall>j \<in> interior nodes. 0 \<le> y (connect j))"
    unfolding vs by (simp add: ball_Un interior_def)
  ultimately show ?thesis by (simp add: feasible_def)
qed

lemma ObjVal_min_cut:
  assumes "min_cut_model nodes arcs capacity = Inr m"
  shows "ObjVal m y = (\<Sum>a\<leftarrow>arcs. obj_of capacity a * y (remove a))"
proof -
  have "(\<Sum>x\<leftarrow>filter (\<lambda>i. i \<noteq> ''s'' \<and> i \<noteq> ''t'') nodes. 0::real) = 0" by simp
  then show ?thesis
    using assms unfolding min_cut_model_Inr by (simp add: ObjVal_def comp_def)
qed

lemma obj_of_dom: "a \<in> dom capacity \<Longrightarrow> obj_of capacity a = the (capacity a)"
  by (auto simp: obj_of_def)

lemma obj_of_nonneg: "0 \<le> the (capacity a) \<Longrightarrow> 0 \<le> obj_of capacity a"
  by (cases "capacity a") (simp_all add: obj_of_def)

lemma ObjVal_min_cut_dom:
  assumes m: "min_cut_model nodes arcs capacity = Inr m" and d: "set arcs \<subseteq> dom capacity"
  shows "ObjVal m y = (\<Sum>a\<leftarrow>arcs. the (capacity a) * y (remove a))"
proof -
  have e: "map (\<lambda>a. obj_of capacity a * y (remove a)) arcs =
        map (\<lambda>a. the (capacity a) * y (remove a)) arcs"
  proof (rule map_cong)
    fix a assume "a \<in> set arcs"
    with d have "a \<in> dom capacity" by blast
    then show "obj_of capacity a * y (remove a) = the (capacity a) * y (remove a)"
      by (simp only: obj_of_dom)
  qed simp
  show ?thesis unfolding ObjVal_min_cut[OF m] e ..
qed

lemma sum_list_by_tail:
  assumes "finite N" and "\<forall>a \<in> set arcs. fst a \<in> N"
  shows "(\<Sum>a\<leftarrow>arcs. f a * h (fst a)) = (\<Sum>j\<in>N. h j * outflow arcs f j)"
  using assms(2)
proof (induction arcs)
  case Nil
  then show ?case by (simp add: outflow_def)
next
  case (Cons a as)
  have "(\<Sum>j\<in>N. h j * outflow (a # as) f j) =
        (\<Sum>j\<in>N. h j * (if fst a = j then f a else 0) + h j * outflow as f j)"
    by (rule sum.cong) (auto simp: outflow_def algebra_simps)
  also have "\<dots> = (\<Sum>j\<in>N. h j * (if fst a = j then f a else 0)) + (\<Sum>j\<in>N. h j * outflow as f j)"
    by (simp add: sum.distrib)
  also have "(\<Sum>j\<in>N. h j * (if fst a = j then f a else 0)) = (\<Sum>j\<in>N. if fst a = j then h j * f a else 0)"
    by (rule sum.cong) auto
  also have "\<dots> = h (fst a) * f a"
    using assms(1) Cons.prems by simp
  finally show ?case using Cons by simp
qed

lemma sum_list_by_head:
  assumes "finite N" and "\<forall>a \<in> set arcs. snd a \<in> N"
  shows "(\<Sum>a\<leftarrow>arcs. f a * h (snd a)) = (\<Sum>j\<in>N. h j * inflow arcs f j)"
  using assms(2)
proof (induction arcs)
  case Nil
  then show ?case by (simp add: inflow_def)
next
  case (Cons a as)
  have "(\<Sum>j\<in>N. h j * inflow (a # as) f j) =
        (\<Sum>j\<in>N. h j * (if snd a = j then f a else 0) + h j * inflow as f j)"
    by (rule sum.cong) (auto simp: inflow_def algebra_simps)
  also have "\<dots> = (\<Sum>j\<in>N. h j * (if snd a = j then f a else 0)) + (\<Sum>j\<in>N. h j * inflow as f j)"
    by (simp add: sum.distrib)
  also have "(\<Sum>j\<in>N. h j * (if snd a = j then f a else 0)) = (\<Sum>j\<in>N. if snd a = j then h j * f a else 0)"
    by (rule sum.cong) auto
  also have "\<dots> = h (snd a) * f a"
    using assms(1) Cons.prems by simp
  finally show ?case using Cons by simp
qed

lemma potential_sum:
  assumes "finite N" and "\<forall>a \<in> set arcs. fst a \<in> N \<and> snd a \<in> N"
  shows "(\<Sum>a\<leftarrow>arcs. f a * (h (fst a) - h (snd a))) =
         (\<Sum>j\<in>N. h j * (outflow arcs f j - inflow arcs f j))"
proof -
  have "(\<Sum>a\<leftarrow>arcs. f a * (h (fst a) - h (snd a))) =
        (\<Sum>a\<leftarrow>arcs. f a * h (fst a)) - (\<Sum>a\<leftarrow>arcs. f a * h (snd a))"
    by (simp add: right_diff_distrib sum_list_subtractf)
  also have "\<dots> = (\<Sum>j\<in>N. h j * outflow arcs f j) - (\<Sum>j\<in>N. h j * inflow arcs f j)"
    using assms by (simp add: sum_list_by_tail sum_list_by_head)
  finally show ?thesis by (simp add: right_diff_distrib sum_subtractf)
qed

lemma cut_keys_ends:
  assumes "cut_keys nodes a"
  shows "fst a \<in> insert ''s'' (insert ''t'' (interior nodes))"
    and "snd a \<in> insert ''s'' (insert ''t'' (interior nodes))"
    and "snd a \<noteq> ''s''" and "fst a \<noteq> ''t''"
  using assms by (auto simp: cut_keys_def interior_def split: if_splits)

lemma finite_interior: "finite (interior nodes)"
  by (simp add: interior_def)

lemma potential_identity:
  assumes keys: "\<forall>a \<in> set arcs. cut_keys nodes a"
    and cons: "\<forall>j \<in> interior nodes. outflow arcs f j = inflow arcs f j"
    and hs: "h ''s'' = 1" and ht: "h ''t'' = 0"
  shows "(\<Sum>a\<leftarrow>arcs. f a * (h (fst a) - h (snd a))) = outflow arcs f ''s''"
proof -
  let ?I = "interior nodes"
  let ?N = "insert ''s'' (insert ''t'' ?I)"
  have fin: "finite ?N" by (simp add: finite_interior)
  have ends: "\<forall>a \<in> set arcs. fst a \<in> ?N \<and> snd a \<in> ?N"
    using keys cut_keys_ends(1,2) by blast
  have sI: "''s'' \<notin> insert ''t'' ?I" and tI: "''t'' \<notin> ?I" by (auto simp: interior_def)
  have "(\<Sum>a\<leftarrow>arcs. f a * (h (fst a) - h (snd a))) =
        (\<Sum>j\<in>?N. h j * (outflow arcs f j - inflow arcs f j))"
    by (rule potential_sum[OF fin ends])
  also have "\<dots> = h ''s'' * (outflow arcs f ''s'' - inflow arcs f ''s'') +
        (h ''t'' * (outflow arcs f ''t'' - inflow arcs f ''t'') +
         (\<Sum>j\<in>?I. h j * (outflow arcs f j - inflow arcs f j)))"
    using sI tI by (simp add: finite_interior)
  also have "(\<Sum>j\<in>?I. h j * (outflow arcs f j - inflow arcs f j)) = 0"
    using cons by simp
  also have "inflow arcs f ''s'' = 0"
    using keys cut_keys_ends(3) by (intro inflow_source) blast
  finally show ?thesis by (simp add: hs ht)
qed

lemma weak_duality_flow:
  fixes c :: "arc \<Rightarrow> real"
  assumes keys: "\<forall>a \<in> set arcs. cut_keys nodes a"
    and f: "is_flow nodes arcs c f"
    and r0: "\<forall>a \<in> set arcs. 0 \<le> y (remove a)"
    and row: "\<forall>a \<in> set arcs. potential y (fst a) - potential y (snd a) \<le> y (remove a)"
  shows "outflow arcs f ''s'' \<le> (\<Sum>a\<leftarrow>arcs. c a * y (remove a))"
proof -
  from f have f0: "\<forall>a \<in> set arcs. 0 \<le> f a" and fc: "\<forall>a \<in> set arcs. f a \<le> c a"
    and cons: "\<forall>j \<in> interior nodes. outflow arcs f j = inflow arcs f j"
    unfolding is_flow_def by simp_all
  have "outflow arcs f ''s'' = (\<Sum>a\<leftarrow>arcs. f a * (potential y (fst a) - potential y (snd a)))"
    by (rule potential_identity[OF keys cons, symmetric]) (simp_all add: potential_def)
  also have "\<dots> \<le> (\<Sum>a\<leftarrow>arcs. f a * y (remove a))"
    using f0 row by (intro sum_list_mono mult_left_mono) auto
  also have "\<dots> \<le> (\<Sum>a\<leftarrow>arcs. c a * y (remove a))"
    using r0 fc by (intro sum_list_mono mult_right_mono) auto
  finally show ?thesis .
qed

lemma weak_duality_cut:
  assumes m2: "min_cut_model nodes arcs capacity = Inr m2"
    and d: "set arcs \<subseteq> dom capacity"
    and f: "is_flow nodes arcs (\<lambda>a. the (capacity a)) f"
    and y: "feasible m2 y"
  shows "outflow arcs f ''s'' \<le> ObjVal m2 y"
proof -
  from m2 have keys: "\<forall>a \<in> set arcs. cut_keys nodes a"
    unfolding min_cut_model_Inr by simp
  from y have r0: "\<forall>a \<in> set arcs. 0 \<le> y (remove a)"
    and row: "\<forall>a \<in> set arcs. potential y (fst a) - potential y (snd a) \<le> y (remove a)"
    unfolding feasible_min_cut[OF m2] by simp_all
  show ?thesis
    unfolding ObjVal_min_cut_dom[OF m2 d]
    by (rule weak_duality_flow[OF keys f r0 row])
qed

lemma weak_duality:
  assumes m1: "max_flow_model nodes arcs capacity = Inr m1"
    and m2: "min_cut_model nodes arcs capacity = Inr m2"
    and sf: "star_free arcs"
    and x: "feasible m1 x" and y: "feasible m2 y"
  shows "ObjVal m1 x \<le> ObjVal m2 y"
proof -
  from m1 have d: "set arcs \<subseteq> dom capacity" unfolding max_flow_model_Inr by simp
  from x have f: "is_flow nodes arcs (\<lambda>a. the (capacity a)) (x \<circ> flow)"
    unfolding feasible_max_flow[OF m1 sf] .
  show ?thesis
    unfolding ObjVal_max_flow[OF m1] by (rule weak_duality_cut[OF m2 d f y])
qed

section \<open>Cuts given by sets of nodes\<close>

lemma optimal_value_unique:
  assumes "optimal_value m v" and "optimal m x"
  shows "ObjVal m x = v"
proof -
  from assms(1) obtain x' where x': "optimal m x'" and v: "ObjVal m x' = v"
    unfolding optimal_value_def by blast
  from x' assms(2) have "better_eq m (ObjVal m x') (ObjVal m x)"
    and "better_eq m (ObjVal m x) (ObjVal m x')"
    unfolding optimal_def by blast+
  then have "ObjVal m x = ObjVal m x'"
    by (cases "ModelSense m = - 1") (simp_all add: better_eq_def)
  with v show ?thesis by simp
qed

lemma exact_solver_exists:
  assumes "\<forall>m x. (m, x) \<in> set pins \<longrightarrow> optimal m x"
    and "distinct (map fst pins)"
  shows "\<exists>solve. exact_solver solve \<and> (\<forall>(m, x) \<in> set pins. solve m = (OPTIMAL, x))"
proof -
  define solve :: solver where
    "solve m = (case map_of pins m of
                  Some x \<Rightarrow> (OPTIMAL, x)
                | None \<Rightarrow> if \<exists>x. optimal m x then (OPTIMAL, SOME x. optimal m x)
                          else (INF_OR_UNBD, (\<lambda>v. 0)))" for m
  have "exact_solver solve"
    unfolding exact_solver_def
  proof
    fix m
    show "case solve m of
            (OPTIMAL, x) \<Rightarrow> optimal m x
          | (INFEASIBLE, x) \<Rightarrow> \<not> (\<exists>y. feasible m y)
          | (INF_OR_UNBD, x) \<Rightarrow> \<not> (\<exists>y. optimal m y)
          | (UNBOUNDED, x) \<Rightarrow> (\<exists>y. feasible m y) \<and> \<not> (\<exists>y. optimal m y)"
    proof (cases "map_of pins m")
      case None
      show ?thesis
      proof (cases "\<exists>x. optimal m x")
        case True
        then have "optimal m (SOME x. optimal m x)" by (rule someI_ex)
        with None True show ?thesis by (simp add: solve_def)
      next
        case False
        with None show ?thesis by (simp add: solve_def)
      qed
    next
      case (Some x)
      then have "(m, x) \<in> set pins" by (rule map_of_SomeD)
      with assms(1) Some show ?thesis by (simp add: solve_def)
    qed
  qed
  moreover have "\<forall>(m, x) \<in> set pins. solve m = (OPTIMAL, x)"
    using assms(2) by (auto simp: solve_def)
  ultimately show ?thesis by blast
qed

lemma exact_solver_optimal:
  assumes "exact_solver solve" and "solve m = (OPTIMAL, x)"
  shows "optimal m x"
  using assms(1)[unfolded exact_solver_def, rule_format, of m] assms(2) by simp

lemma potential_cut_of:
  assumes "''s'' \<in> S" and "''t'' \<notin> S"
  shows "potential (cut_of S) j = (if j \<in> S then 1 else 0)"
  using assms by (simp add: potential_def cut_of_def)

lemma cut_of_feasible:
  assumes m: "min_cut_model nodes arcs capacity = Inr m"
    and s: "''s'' \<in> S" and t: "''t'' \<notin> S"
  shows "feasible m (cut_of S)"
  unfolding feasible_min_cut[OF m] potential_cut_of[OF s t]
  by (simp add: cut_of_def)

lemma cut_keys_valid:
  assumes v: "valid_network nodes arcs capacity" and a: "a \<in> set arcs"
    and "snd a \<noteq> ''s''" and "fst a \<noteq> ''t''" and "a \<noteq> (''s'', ''t'')"
  shows "cut_keys nodes a"
proof -
  from v a have "fst a \<in> set nodes" "snd a \<in> set nodes"
    unfolding valid_network_def by blast+
  with assms(3-5) show ?thesis
    by (cases a) (auto simp: cut_keys_def interior_def)
qed

lemma valid_dom:
  assumes "valid_network nodes arcs capacity"
  shows "set arcs \<subseteq> dom capacity" and "\<forall>a \<in> set arcs. 0 \<le> the (capacity a)"
  using assms unfolding valid_network_def by fastforce+

lemma zero_feasible_cut:
  assumes m: "min_cut_model nodes arcs capacity = Inr m"
    and s: "\<forall>a \<in> set arcs. fst a \<noteq> ''s''"
  shows "feasible m (\<lambda>v. 0)"
  unfolding feasible_min_cut[OF m] using s by (simp add: potential_def)

lemma cut_objective_nonneg:
  assumes m: "min_cut_model nodes arcs capacity = Inr m"
    and c: "\<forall>a \<in> set arcs. 0 \<le> the (capacity a)"
    and y: "feasible m y"
  shows "0 \<le> ObjVal m y"
proof -
  from y have r0: "\<forall>a \<in> set arcs. 0 \<le> y (remove a)"
    unfolding feasible_min_cut[OF m] by simp
  show ?thesis
    unfolding ObjVal_min_cut[OF m]
    by (rule sum_list_nonneg) (use c r0 obj_of_nonneg in auto)
qed

lemma ObjVal_cut_of_closed:
  assumes m: "min_cut_model nodes arcs capacity = Inr m"
    and closed: "\<forall>a \<in> set arcs. fst a \<in> S \<longrightarrow> snd a \<in> S"
  shows "ObjVal m (cut_of S) = 0"
proof -
  have r0: "cut_of S (remove a) = 0" if "a \<in> set arcs" for a
    using closed that by (auto simp: cut_of_def)
  have e: "map (\<lambda>a. obj_of capacity a * cut_of S (remove a)) arcs = map (\<lambda>a. 0) arcs"
    by (rule map_cong) (simp_all add: r0)
  show ?thesis unfolding ObjVal_min_cut[OF m] e by simp
qed

lemma is_flow_zero:
  assumes "\<forall>a \<in> set arcs. 0 \<le> c a"
  shows "is_flow nodes arcs c (\<lambda>a. 0)" and "outflow arcs (\<lambda>a. 0) ''s'' = 0"
  using assms by (simp_all add: is_flow_def outflow_def inflow_def)

lemma flow_of_flow: "flow_of g \<circ> flow = g"
  by (rule ext) (simp add: flow_of_def)

lemma optimal_max_flow:
  assumes m: "max_flow_model nodes arcs capacity = Inr m" and sf: "star_free arcs"
  shows "optimal m x \<longleftrightarrow> is_max_flow nodes arcs (\<lambda>a. the (capacity a)) (x \<circ> flow)"
proof -
  have sense: "ModelSense m = - 1" using m unfolding max_flow_model_Inr by simp
  have "(\<forall>y. feasible m y \<longrightarrow> ObjVal m y \<le> ObjVal m x) \<longleftrightarrow>
        (\<forall>g. is_flow nodes arcs (\<lambda>a. the (capacity a)) g \<longrightarrow>
           outflow arcs g ''s'' \<le> outflow arcs (x \<circ> flow) ''s'')"
  proof
    assume a: "\<forall>y. feasible m y \<longrightarrow> ObjVal m y \<le> ObjVal m x"
    show "\<forall>g. is_flow nodes arcs (\<lambda>a. the (capacity a)) g \<longrightarrow>
           outflow arcs g ''s'' \<le> outflow arcs (x \<circ> flow) ''s''"
    proof (intro allI impI)
      fix g assume "is_flow nodes arcs (\<lambda>a. the (capacity a)) g"
      then have "feasible m (flow_of g)"
        unfolding feasible_max_flow[OF m sf] flow_of_flow .
      with a have "ObjVal m (flow_of g) \<le> ObjVal m x" by blast
      then show "outflow arcs g ''s'' \<le> outflow arcs (x \<circ> flow) ''s''"
        unfolding ObjVal_max_flow[OF m] flow_of_flow .
    qed
  next
    assume a: "\<forall>g. is_flow nodes arcs (\<lambda>a. the (capacity a)) g \<longrightarrow>
           outflow arcs g ''s'' \<le> outflow arcs (x \<circ> flow) ''s''"
    show "\<forall>y. feasible m y \<longrightarrow> ObjVal m y \<le> ObjVal m x"
      unfolding feasible_max_flow[OF m sf] ObjVal_max_flow[OF m] using a by blast
  qed
  then show ?thesis
    unfolding optimal_def is_max_flow_def better_eq_def feasible_max_flow[OF m sf]
    by (simp add: sense)
qed

section \<open>Augmenting a flow along the residual network\<close>

lemma outflow_absent:
  assumes "a \<notin> set arcs"
  shows "outflow arcs (\<lambda>b. if b = a then v else g b) j = outflow arcs g j"
  using assms by (induction arcs) (auto simp: outflow_def)

lemma inflow_absent:
  assumes "a \<notin> set arcs"
  shows "inflow arcs (\<lambda>b. if b = a then v else g b) j = inflow arcs g j"
  using assms by (induction arcs) (auto simp: inflow_def)

lemma outflow_Cons: "outflow (b # bs) g j = (if fst b = j then g b else 0) + outflow bs g j"
  by (simp add: outflow_def)

lemma inflow_Cons: "inflow (b # bs) g j = (if snd b = j then g b else 0) + inflow bs g j"
  by (simp add: inflow_def)

lemma outflow_update:
  assumes "distinct arcs" and "a \<in> set arcs"
  shows "outflow arcs (\<lambda>b. if b = a then g b + d else g b) j = outflow arcs g j + (if fst a = j then d else 0)"
  using assms
proof (induction arcs)
  case Nil
  then show ?case by simp
next
  case (Cons b bs)
  show ?case
  proof (cases "b = a")
    case True
    with Cons.prems have "a \<notin> set bs" by simp
    then have "outflow bs (\<lambda>b. if b = a then g b + d else g b) j = outflow bs g j"
      using outflow_absent[of a bs "g a + d" g j] by (simp cong: if_cong)
    then show ?thesis unfolding outflow_Cons True by simp
  next
    case False
    with Cons have "outflow bs (\<lambda>b. if b = a then g b + d else g b) j = outflow bs g j + (if fst a = j then d else 0)"
      by simp
    with False show ?thesis by (simp add: outflow_Cons)
  qed
qed

lemma inflow_update:
  assumes "distinct arcs" and "a \<in> set arcs"
  shows "inflow arcs (\<lambda>b. if b = a then g b + d else g b) j = inflow arcs g j + (if snd a = j then d else 0)"
  using assms
proof (induction arcs)
  case Nil
  then show ?case by simp
next
  case (Cons b bs)
  show ?case
  proof (cases "b = a")
    case True
    with Cons.prems have "a \<notin> set bs" by simp
    then have "inflow bs (\<lambda>b. if b = a then g b + d else g b) j = inflow bs g j"
      using inflow_absent[of a bs "g a + d" g j] by (simp cong: if_cong)
    then show ?thesis unfolding inflow_Cons True by simp
  next
    case False
    with Cons have "inflow bs (\<lambda>b. if b = a then g b + d else g b) j = inflow bs g j + (if snd a = j then d else 0)"
      by simp
    with False show ?thesis by (simp add: inflow_Cons)
  qed
qed

lemma residual_pushes:
  assumes "v \<in> residual arcs c f" and dist: "distinct arcs"
  shows "\<exists>d. pushes arcs c f v d"
  using assms(1)
proof (induction rule: residual.induct)
  case source
  have "pushes arcs c f ''s'' (\<lambda>a. 0)"
    by (simp add: pushes_def outflow_def inflow_def)
  then show ?case by blast
next
  case (forward i j)
  then obtain d where d: "pushes arcs c f i d" by blast
  let ?a = "(i, j)"
  let ?d = "\<lambda>b. if b = ?a then d b + 1 else d b"
  have "pushes arcs c f j ?d"
    unfolding pushes_def
  proof (intro conjI allI)
    show "\<forall>a \<in> set arcs. (0 < ?d a \<longrightarrow> f a < c a) \<and> (?d a < 0 \<longrightarrow> 0 < f a)"
    proof
      fix a assume "a \<in> set arcs"
      with d forward.hyps(3) show "(0 < ?d a \<longrightarrow> f a < c a) \<and> (?d a < 0 \<longrightarrow> 0 < f a)"
        unfolding pushes_def by (cases "a = ?a") auto
    qed
  next
    fix k
    from d have "outflow arcs d k - inflow arcs d k =
          (if k = ''s'' then 1 else 0) - (if k = i then 1 else 0)"
      unfolding pushes_def by blast
    moreover have "outflow arcs ?d k = outflow arcs d k + (if fst ?a = k then 1 else 0)"
      by (rule outflow_update[OF dist forward.hyps(2)])
    moreover have "inflow arcs ?d k = inflow arcs d k + (if snd ?a = k then 1 else 0)"
      by (rule inflow_update[OF dist forward.hyps(2)])
    ultimately show "outflow arcs ?d k - inflow arcs ?d k =
          (if k = ''s'' then 1 else 0) - (if k = j then 1 else 0)"
      by (simp split: if_splits)
  qed
  then show ?case by blast
next
  case (backward j i)
  then obtain d where d: "pushes arcs c f j d" by blast
  let ?a = "(i, j)"
  let ?d = "\<lambda>b. if b = ?a then d b + (- 1) else d b"
  have "pushes arcs c f i ?d"
    unfolding pushes_def
  proof (intro conjI allI)
    show "\<forall>a \<in> set arcs. (0 < ?d a \<longrightarrow> f a < c a) \<and> (?d a < 0 \<longrightarrow> 0 < f a)"
    proof
      fix a assume "a \<in> set arcs"
      with d backward.hyps(3) show "(0 < ?d a \<longrightarrow> f a < c a) \<and> (?d a < 0 \<longrightarrow> 0 < f a)"
        unfolding pushes_def by (cases "a = ?a") auto
    qed
  next
    fix k
    from d have "outflow arcs d k - inflow arcs d k =
          (if k = ''s'' then 1 else 0) - (if k = j then 1 else 0)"
      unfolding pushes_def by blast
    moreover have "outflow arcs ?d k = outflow arcs d k + (if fst ?a = k then - 1 else 0)"
      by (rule outflow_update[OF dist backward.hyps(2)])
    moreover have "inflow arcs ?d k = inflow arcs d k + (if snd ?a = k then - 1 else 0)"
      by (rule inflow_update[OF dist backward.hyps(2)])
    ultimately show "outflow arcs ?d k - inflow arcs ?d k =
          (if k = ''s'' then 1 else 0) - (if k = i then 1 else 0)"
      by (simp split: if_splits)
  qed
  then show ?case by blast
qed

lemma step_size:
  fixes f c d :: "arc \<Rightarrow> real"
  assumes "\<forall>a \<in> set arcs. 0 \<le> f a \<and> f a \<le> c a"
    and "\<forall>a \<in> set arcs. (0 < d a \<longrightarrow> f a < c a) \<and> (d a < 0 \<longrightarrow> 0 < f a)"
  shows "\<exists>e > 0. \<forall>e'. 0 < e' \<and> e' \<le> e \<longrightarrow>
           (\<forall>a \<in> set arcs. 0 \<le> f a + e' * d a \<and> f a + e' * d a \<le> c a)"
  using assms
proof (induction arcs)
  case Nil
  show ?case by (rule exI[of _ 1]) simp
next
  case (Cons a as)
  then obtain e1 where e1: "e1 > 0" and
    E1: "\<forall>e'. 0 < e' \<and> e' \<le> e1 \<longrightarrow> (\<forall>a \<in> set as. 0 \<le> f a + e' * d a \<and> f a + e' * d a \<le> c a)"
    by auto
  from Cons.prems have fa: "0 \<le> f a" "f a \<le> c a"
    and sg: "0 < d a \<longrightarrow> f a < c a" "d a < 0 \<longrightarrow> 0 < f a" by auto
  have "\<exists>e2 > 0. \<forall>e'. 0 < e' \<and> e' \<le> e2 \<longrightarrow> 0 \<le> f a + e' * d a \<and> f a + e' * d a \<le> c a"
  proof (cases "d a = 0")
    case True
    with fa show ?thesis by (intro exI[of _ 1]) simp
  next
    case False
    show ?thesis
    proof (cases "0 < d a")
      case True
      with sg have lt: "f a < c a" by simp
      let ?e = "(c a - f a) / d a"
      have pos: "0 < ?e" using True lt by simp
      have "0 \<le> f a + e' * d a \<and> f a + e' * d a \<le> c a" if "0 < e'" "e' \<le> ?e" for e'
      proof
        from that True fa show "0 \<le> f a + e' * d a"
          by (simp add: add_nonneg_nonneg)
        from that(2) True have "e' * d a \<le> c a - f a"
          by (simp add: pos_le_divide_eq)
        then show "f a + e' * d a \<le> c a" by simp
      qed
      with pos show ?thesis by blast
    next
      case F: False
      with False have neg: "d a < 0" by simp
      with sg have lt: "0 < f a" by simp
      let ?e = "f a / (- d a)"
      have pos: "0 < ?e" using neg lt by (intro divide_pos_pos) simp_all
      have "0 \<le> f a + e' * d a \<and> f a + e' * d a \<le> c a" if "0 < e'" "e' \<le> ?e" for e'
      proof
        from neg have n: "0 < - d a" by simp
        from that(2) have "e' * (- d a) \<le> f a"
          by (simp only: pos_le_divide_eq[OF n])
        then show "0 \<le> f a + e' * d a" by simp
        from that(1) neg have "e' * d a \<le> 0"
          by (simp add: mult_nonneg_nonpos)
        with fa show "f a + e' * d a \<le> c a" by simp
      qed
      with pos show ?thesis by blast
    qed
  qed
  then obtain e2 where e2: "e2 > 0" and
    E2: "\<forall>e'. 0 < e' \<and> e' \<le> e2 \<longrightarrow> 0 \<le> f a + e' * d a \<and> f a + e' * d a \<le> c a"
    by blast
  show ?case
  proof (intro exI[of _ "min e1 e2"] conjI allI impI)
    show "0 < min e1 e2" using e1 e2 by simp
  next
    fix e' assume "0 < e' \<and> e' \<le> min e1 e2"
    then have "0 < e' \<and> e' \<le> e1" "0 < e' \<and> e' \<le> e2" by simp_all
    with E1 E2 show "\<forall>a \<in> set (a # as). 0 \<le> f a + e' * d a \<and> f a + e' * d a \<le> c a"
      by simp
  qed
qed

lemma outflow_linear:
  "outflow arcs (\<lambda>a. f a + e * d a) j = outflow arcs f j + e * outflow arcs d j"
  by (simp add: outflow_def sum_list_addf sum_list_const_mult)

lemma inflow_linear:
  "inflow arcs (\<lambda>a. f a + e * d a) j = inflow arcs f j + e * inflow arcs d j"
  by (simp add: inflow_def sum_list_addf sum_list_const_mult)

lemma maximal_no_augment:
  assumes keys: "\<forall>a \<in> set arcs. cut_keys nodes a"
    and dist: "distinct arcs"
    and opt: "is_max_flow nodes arcs c f"
  shows "''t'' \<notin> residual arcs c f"
proof
  assume "''t'' \<in> residual arcs c f"
  from residual_pushes[OF this dist] obtain d where d: "pushes arcs c f ''t'' d" by blast
  from opt have bounds: "\<forall>a \<in> set arcs. 0 \<le> f a \<and> f a \<le> c a"
    and cons: "\<forall>j \<in> interior nodes. outflow arcs f j = inflow arcs f j"
    and best: "\<And>g. is_flow nodes arcs c g \<Longrightarrow> outflow arcs g ''s'' \<le> outflow arcs f ''s''"
    unfolding is_max_flow_def is_flow_def by blast+
  from d have sign: "\<forall>a \<in> set arcs. (0 < d a \<longrightarrow> f a < c a) \<and> (d a < 0 \<longrightarrow> 0 < f a)"
    and div: "\<And>j. outflow arcs d j - inflow arcs d j =
          (if j = ''s'' then 1 else 0) - (if j = ''t'' then 1 else 0)"
    unfolding pushes_def by blast+
  from step_size[OF bounds sign] obtain e where e: "0 < e"
    and E: "\<forall>a \<in> set arcs. 0 \<le> f a + e * d a \<and> f a + e * d a \<le> c a"
    by blast
  define g where "g = (\<lambda>a. f a + e * d a)"
  have go: "outflow arcs g j = outflow arcs f j + e * outflow arcs d j"
    and gi: "inflow arcs g j = inflow arcs f j + e * inflow arcs d j" for j
    unfolding g_def by (rule outflow_linear inflow_linear)+
  have k: "\<forall>j \<in> interior nodes. outflow arcs g j = inflow arcs g j"
  proof
    fix j assume j: "j \<in> interior nodes"
    then have "j \<noteq> ''s''" "j \<noteq> ''t''" by (simp_all add: interior_def)
    with div[of j] have "outflow arcs d j = inflow arcs d j" by simp
    with cons j show "outflow arcs g j = inflow arcs g j"
      unfolding go gi by simp
  qed
  have E': "\<forall>a \<in> set arcs. 0 \<le> g a \<and> g a \<le> c a"
    using E by (simp add: g_def)
  have G: "is_flow nodes arcs c g"
    unfolding is_flow_def using E' k by blast
  have "inflow arcs d ''s'' = 0"
    using keys cut_keys_ends(3) by (intro inflow_source) blast
  with div[of "''s''"] have "outflow arcs d ''s'' = 1" by simp
  with go[of "''s''"] have "outflow arcs g ''s'' = outflow arcs f ''s'' + e" by simp
  with best[OF G] e show False by simp
qed

lemma residual_cut_tight:
  fixes c :: "arc \<Rightarrow> real"
  assumes keys: "\<forall>a \<in> set arcs. cut_keys nodes a"
    and fl: "is_flow nodes arcs c f"
    and S: "S = residual arcs c f"
    and t: "''t'' \<notin> S"
  shows "(\<Sum>a\<leftarrow>arcs. c a * cut_of S (remove a)) = outflow arcs f ''s''"
proof -
  define h :: "node \<Rightarrow> real" where "h j = (if j \<in> S then 1 else 0)" for j
  have s: "''s'' \<in> S" unfolding S by (rule residual.source)
  from fl have bounds: "\<forall>a \<in> set arcs. 0 \<le> f a \<and> f a \<le> c a"
    and cons: "\<forall>j \<in> interior nodes. outflow arcs f j = inflow arcs f j"
    unfolding is_flow_def by blast+
  have tm: "c a * cut_of S (remove a) = f a * (h (fst a) - h (snd a))"
    if a: "a \<in> set arcs" for a
  proof -
    obtain i j where ij: "a = (i, j)" by (cases a)
    from bounds a have b: "0 \<le> f a" "f a \<le> c a" by blast+
    consider "i \<in> S" "j \<notin> S" | "i \<notin> S" "j \<in> S" | "i \<in> S \<longleftrightarrow> j \<in> S" by blast
    then show ?thesis
    proof cases
      case 1
      have "\<not> f a < c a"
      proof
        assume "f a < c a"
        with 1(1) a ij have "j \<in> S" unfolding S using residual.forward[of i arcs c f j] by simp
        with 1(2) show False by simp
      qed
      with b have "f a = c a" by simp
      with 1 ij show ?thesis by (simp add: cut_of_def h_def)
    next
      case 2
      have "\<not> 0 < f a"
      proof
        assume "0 < f a"
        with 2(2) a ij have "i \<in> S" unfolding S using residual.backward[of j arcs c f i] by simp
        with 2(1) show False by simp
      qed
      with b have "f a = 0" by simp
      with 2 ij show ?thesis by (simp add: cut_of_def h_def)
    next
      case 3
      with ij show ?thesis by (auto simp: cut_of_def h_def)
    qed
  qed
  have e: "map (\<lambda>a. c a * cut_of S (remove a)) arcs =
           map (\<lambda>a. f a * (h (fst a) - h (snd a))) arcs"
    by (rule map_cong) (simp_all only: tm)
  have "(\<Sum>a\<leftarrow>arcs. c a * cut_of S (remove a)) = (\<Sum>a\<leftarrow>arcs. f a * (h (fst a) - h (snd a)))"
    unfolding e ..
  also have "\<dots> = outflow arcs f ''s''"
    by (rule potential_identity[OF keys cons]) (use s t in \<open>simp_all add: h_def\<close>)
  finally show ?thesis .
qed

section \<open>A maximum flow exists\<close>

lemma bounded_subsequence:
  fixes X :: "nat \<Rightarrow> 'k \<Rightarrow> real"
  assumes "\<forall>v \<in> set vs. \<exists>B. \<forall>n. \<bar>X n v\<bar> \<le> B"
  shows "\<exists>p g. strict_mono (p :: nat \<Rightarrow> nat) \<and> (\<forall>v \<in> set vs. (\<lambda>n. X (p n) v) \<longlonglongrightarrow> g v)"
  using assms
proof (induction vs)
  case Nil
  have "strict_mono (id :: nat \<Rightarrow> nat)" by (simp add: strict_mono_def)
  then show ?case by auto
next
  case (Cons v vs)
  then obtain p g where p: "strict_mono (p :: nat \<Rightarrow> nat)"
    and g: "\<forall>w \<in> set vs. (\<lambda>n. X (p n) w) \<longlonglongrightarrow> g w"
    by auto
  from Cons.prems obtain B where B: "\<forall>n. \<bar>X n v\<bar> \<le> B" by auto
  define Y where "Y = (\<lambda>n. X (p n) v)"
  have bY: "Bseq Y"
    by (rule BseqI'[of _ B]) (simp add: Y_def B)
  obtain q :: "nat \<Rightarrow> nat" where q: "strict_mono q" and mono: "monoseq (\<lambda>n. Y (q n))"
    using seq_monosub[of Y] by blast
  have "Bseq (\<lambda>n. Y (q n))" by (rule Bseq_subseq[OF bY])
  then have "convergent (\<lambda>n. Y (q n))" using mono by (rule Bseq_monoseq_convergent)
  then obtain L where L: "(\<lambda>n. Y (q n)) \<longlonglongrightarrow> L" unfolding convergent_def by blast
  have pq: "strict_mono (p \<circ> q)" by (rule strict_mono_o[OF p q])
  have "\<forall>w \<in> set (v # vs). (\<lambda>n. X ((p \<circ> q) n) w) \<longlonglongrightarrow> (g(v := L)) w"
  proof
    fix w assume w: "w \<in> set (v # vs)"
    show "(\<lambda>n. X ((p \<circ> q) n) w) \<longlonglongrightarrow> (g(v := L)) w"
    proof (cases "w = v")
      case True
      with L show ?thesis by (simp add: Y_def)
    next
      case False
      with w g have "(\<lambda>n. X (p n) w) \<longlonglongrightarrow> g w" by simp
      from LIMSEQ_subseq_LIMSEQ[OF this q] False show ?thesis by (simp add: comp_def)
    qed
  qed
  with pq show ?case by blast
qed

lemma tendsto_sum_list_real:
  fixes F :: "nat \<Rightarrow> 'b \<Rightarrow> real"
  assumes "\<forall>b \<in> set bs. (\<lambda>n. F n b) \<longlonglongrightarrow> G b"
  shows "(\<lambda>n. \<Sum>b\<leftarrow>bs. F n b) \<longlonglongrightarrow> (\<Sum>b\<leftarrow>bs. G b)"
  using assms
proof (induction bs)
  case Nil
  then show ?case by simp
next
  case (Cons b bs)
  then have "(\<lambda>n. F n b) \<longlonglongrightarrow> G b" and "(\<lambda>n. \<Sum>b\<leftarrow>bs. F n b) \<longlonglongrightarrow> (\<Sum>b\<leftarrow>bs. G b)"
    by simp_all
  from tendsto_add[OF this] show ?case by simp
qed

lemma flow_value_bounded:
  fixes c :: "arc \<Rightarrow> real"
  assumes "is_flow nodes arcs c f"
  shows "outflow arcs f ''s'' \<le> (\<Sum>a\<leftarrow>filter (\<lambda>a. fst a = ''s'') arcs. c a)"
proof -
  from assms have "f a \<le> c a" if "a \<in> set arcs" for a
    using that unfolding is_flow_def by blast
  then show ?thesis
    unfolding outflow_def by (intro sum_list_mono) simp
qed

lemma max_flow_exists:
  fixes c :: "arc \<Rightarrow> real"
  assumes c: "\<forall>a \<in> set arcs. 0 \<le> c a"
  shows "\<exists>f. is_max_flow nodes arcs c f"
proof -
  define V where "V = {outflow arcs f ''s'' | f. is_flow nodes arcs c f}"
  have ne: "V \<noteq> {}" using is_flow_zero(1)[OF c] unfolding V_def by blast
  have bdd: "bdd_above V"
    unfolding V_def bdd_above_def using flow_value_bounded[of nodes arcs c] by blast
  have "\<exists>f. is_flow nodes arcs c f \<and> Sup V - inverse (real (Suc n)) < outflow arcs f ''s''" for n
  proof -
    have "Sup V - inverse (real (Suc n)) < Sup V" by simp
    then obtain v where "v \<in> V" "Sup V - inverse (real (Suc n)) < v"
      using less_cSup_iff[OF ne bdd] by blast
    then show ?thesis unfolding V_def by blast
  qed
  then obtain X where X: "\<And>n. is_flow nodes arcs c (X n)"
    and near: "\<And>n. Sup V - inverse (real (Suc n)) < outflow arcs (X n) ''s''"
    by metis
  have F: "\<And>n. (\<forall>a \<in> set arcs. 0 \<le> X n a \<and> X n a \<le> c a) \<and>
     (\<forall>j \<in> interior nodes. outflow arcs (X n) j = inflow arcs (X n) j)"
    using X unfolding is_flow_def by blast
  have "\<forall>a \<in> set arcs. \<exists>B. \<forall>n. \<bar>X n a\<bar> \<le> B"
  proof
    fix a assume a: "a \<in> set arcs"
    have "\<bar>X n a\<bar> \<le> c a" for n
      using F[of n] a by fastforce
    then show "\<exists>B. \<forall>n. \<bar>X n a\<bar> \<le> B" by blast
  qed
  from bounded_subsequence[OF this] obtain p g where p: "strict_mono p"
    and lim: "\<And>a. a \<in> set arcs \<Longrightarrow> (\<lambda>n. X (p n) a) \<longlonglongrightarrow> g a"
    by auto
  have sums: "(\<lambda>n. \<Sum>b\<leftarrow>bs. X (p n) b) \<longlonglongrightarrow> (\<Sum>b\<leftarrow>bs. g b)"
    if "set bs \<subseteq> set arcs" for bs
    by (rule tendsto_sum_list_real) (use lim that in auto)
  have G: "is_flow nodes arcs c g"
    unfolding is_flow_def
  proof (intro conjI ballI)
    fix a assume a: "a \<in> set arcs"
    show "0 \<le> g a"
      by (rule LIMSEQ_le_const[OF lim[OF a]]) (use F a in blast)
    show "g a \<le> c a"
      by (rule LIMSEQ_le_const2[OF lim[OF a]]) (use F a in blast)
  next
    fix j assume j: "j \<in> interior nodes"
    have o: "(\<lambda>n. outflow arcs (X (p n)) j) \<longlonglongrightarrow> outflow arcs g j"
      unfolding outflow_def by (rule sums) auto
    have i: "(\<lambda>n. inflow arcs (X (p n)) j) \<longlonglongrightarrow> inflow arcs g j"
      unfolding inflow_def by (rule sums) auto
    have "(\<lambda>n. outflow arcs (X (p n)) j) = (\<lambda>n. inflow arcs (X (p n)) j)"
      using F j by auto
    with o have "(\<lambda>n. inflow arcs (X (p n)) j) \<longlonglongrightarrow> outflow arcs g j"
      by simp
    from LIMSEQ_unique[OF this i]
    show "outflow arcs g j = inflow arcs g j" .
  qed
  have l1: "(\<lambda>n. outflow arcs (X (p n)) ''s'') \<longlonglongrightarrow> outflow arcs g ''s''"
    unfolding outflow_def by (rule sums) auto
  have l2: "(\<lambda>n. Sup V - inverse (real (Suc (p n)))) \<longlonglongrightarrow> Sup V"
  proof -
    have "(\<lambda>n. inverse (real (Suc n))) \<longlonglongrightarrow> 0" by (rule LIMSEQ_inverse_real_of_nat)
    from LIMSEQ_subseq_LIMSEQ[OF this p]
    have "(\<lambda>n. inverse (real (Suc (p n)))) \<longlonglongrightarrow> 0" by (simp add: comp_def)
    from tendsto_diff[OF tendsto_const[of "Sup V"] this] show ?thesis by simp
  qed
  have "Sup V \<le> outflow arcs g ''s''"
    by (rule LIMSEQ_le[OF l2 l1]) (use near in \<open>auto intro: less_imp_le\<close>)
  moreover have "outflow arcs h ''s'' \<le> Sup V" if "is_flow nodes arcs c h" for h
    by (rule cSup_upper[OF _ bdd]) (use that in \<open>auto simp: V_def\<close>)
  ultimately have "is_max_flow nodes arcs c g"
    using G unfolding is_max_flow_def by fastforce
  then show ?thesis by blast
qed

section \<open>Maximum flow equals minimum cut\<close>

lemma strong_duality:
  assumes m2: "min_cut_model nodes arcs capacity = Inr m2"
    and d: "set arcs \<subseteq> dom capacity"
    and c: "\<forall>a \<in> set arcs. 0 \<le> the (capacity a)"
  shows "\<exists>f S. is_max_flow nodes arcs (\<lambda>a. the (capacity a)) f \<and> optimal m2 (cut_of S) \<and>
           ObjVal m2 (cut_of S) = outflow arcs f ''s'' \<and> ''s'' \<in> S \<and> ''t'' \<notin> S"
proof -
  from max_flow_exists[OF c] obtain f where
    f: "is_max_flow nodes arcs (\<lambda>a. the (capacity a)) f" by blast
  then have fl: "is_flow nodes arcs (\<lambda>a. the (capacity a)) f" by (simp add: is_max_flow_def)
  from m2 have keys: "\<forall>a \<in> set arcs. cut_keys nodes a" and dist: "distinct arcs"
    unfolding min_cut_model_Inr by simp_all
  define S where "S = residual arcs (\<lambda>a. the (capacity a)) f"
  have t: "''t'' \<notin> S" unfolding S_def by (rule maximal_no_augment[OF keys dist f])
  have s: "''s'' \<in> S" unfolding S_def by (rule residual.source)
  have fy: "feasible m2 (cut_of S)" by (rule cut_of_feasible[OF m2 s t])
  have T: "ObjVal m2 (cut_of S) = outflow arcs f ''s''"
    unfolding ObjVal_min_cut_dom[OF m2 d] by (rule residual_cut_tight[OF keys fl S_def t])
  have sense: "ModelSense m2 = 1" using m2 unfolding min_cut_model_Inr by simp
  have "ObjVal m2 (cut_of S) \<le> ObjVal m2 y" if "feasible m2 y" for y
    using weak_duality_cut[OF m2 d fl that] T by simp
  with fy have "optimal m2 (cut_of S)"
    by (simp add: optimal_def better_eq_def sense)
  with f T s t show ?thesis by blast
qed

section \<open>The network of the notebook\<close>

lemma dom0: "set arcs0 \<subseteq> dom capacity0"
  by (simp add: arcs0_def capacity0_def)

lemma distinct0: "distinct arcs0" "distinct (filter (\<lambda>i. i \<noteq> ''s'' \<and> i \<noteq> ''t'') nodes0)"
  by (simp_all add: arcs0_def nodes0_def)

lemma star_free0: "star_free arcs0"
  by (simp add: star_free_def arcs0_def)

lemma mf0: "\<exists>m. max_flow_model nodes0 arcs0 capacity0 = Inr m"
  unfolding max_flow_model_Inr using dom0 distinct0 by simp

lemma keys0: "\<forall>a \<in> set arcs0. cut_keys nodes0 a"
  by (simp add: arcs0_def cut_keys_def nodes0_def interior_def)

lemma mc0: "\<exists>m. min_cut_model nodes0 arcs0 capacity0 = Inr m"
  unfolding min_cut_model_Inr using distinct0 keys0 by simp

lemma interior0: "interior nodes0 = {''A'', ''B'', ''C'', ''D''}"
  by (auto simp: interior_def nodes0_def)

lemma feasible_flow0:
  assumes "max_flow_model nodes0 arcs0 capacity0 = Inr m"
  shows "feasible m x \<longleftrightarrow>
    0 \<le> x (flow (''s'', ''A'')) \<and> x (flow (''s'', ''A'')) \<le> 100 \<and>
    0 \<le> x (flow (''s'', ''B'')) \<and> x (flow (''s'', ''B'')) \<le> 150 \<and>
    0 \<le> x (flow (''A'', ''B'')) \<and> x (flow (''A'', ''B'')) \<le> 120 \<and>
    0 \<le> x (flow (''A'', ''C'')) \<and> x (flow (''A'', ''C'')) \<le> 90 \<and>
    0 \<le> x (flow (''B'', ''D'')) \<and> x (flow (''B'', ''D'')) \<le> 110 \<and>
    0 \<le> x (flow (''C'', ''D'')) \<and> x (flow (''C'', ''D'')) \<le> 120 \<and>
    0 \<le> x (flow (''C'', ''t'')) \<and> x (flow (''C'', ''t'')) \<le> 140 \<and>
    0 \<le> x (flow (''D'', ''t'')) \<and> x (flow (''D'', ''t'')) \<le> 90 \<and>
    x (flow (''A'', ''B'')) + x (flow (''A'', ''C'')) = x (flow (''s'', ''A'')) \<and>
    x (flow (''B'', ''D'')) = x (flow (''s'', ''B'')) + x (flow (''A'', ''B'')) \<and>
    x (flow (''C'', ''D'')) + x (flow (''C'', ''t'')) = x (flow (''A'', ''C'')) \<and>
    x (flow (''D'', ''t'')) = x (flow (''B'', ''D'')) + x (flow (''C'', ''D''))"
  unfolding feasible_max_flow[OF assms star_free0] is_flow_def interior0
  by (simp add: arcs0_def capacity0_def outflow_def inflow_def)

lemma ObjVal_flow0:
  assumes "max_flow_model nodes0 arcs0 capacity0 = Inr m"
  shows "ObjVal m x = x (flow (''s'', ''A'')) + x (flow (''s'', ''B''))"
  unfolding ObjVal_max_flow[OF assms] by (simp add: arcs0_def outflow_def)

lemma feasible_cut0:
  assumes "min_cut_model nodes0 arcs0 capacity0 = Inr m"
  shows "feasible m y \<longleftrightarrow>
    0 \<le> y (remove (''s'', ''A'')) \<and> 0 \<le> y (remove (''s'', ''B'')) \<and>
    0 \<le> y (remove (''A'', ''B'')) \<and> 0 \<le> y (remove (''A'', ''C'')) \<and>
    0 \<le> y (remove (''B'', ''D'')) \<and> 0 \<le> y (remove (''C'', ''D'')) \<and>
    0 \<le> y (remove (''C'', ''t'')) \<and> 0 \<le> y (remove (''D'', ''t'')) \<and>
    0 \<le> y (connect ''A'') \<and> 0 \<le> y (connect ''B'') \<and>
    0 \<le> y (connect ''C'') \<and> 0 \<le> y (connect ''D'') \<and>
    1 \<le> y (remove (''s'', ''A'')) + y (connect ''A'') \<and>
    1 \<le> y (remove (''s'', ''B'')) + y (connect ''B'') \<and>
    0 \<le> y (remove (''A'', ''B'')) + y (connect ''B'') - y (connect ''A'') \<and>
    0 \<le> y (remove (''A'', ''C'')) + y (connect ''C'') - y (connect ''A'') \<and>
    0 \<le> y (remove (''B'', ''D'')) + y (connect ''D'') - y (connect ''B'') \<and>
    0 \<le> y (remove (''C'', ''D'')) + y (connect ''D'') - y (connect ''C'') \<and>
    0 \<le> y (remove (''C'', ''t'')) - y (connect ''C'') \<and>
    0 \<le> y (remove (''D'', ''t'')) - y (connect ''D'')"
  unfolding feasible_min_cut[OF assms] interior0
  by (simp add: arcs0_def potential_def) linarith

lemma ObjVal_cut0:
  assumes "min_cut_model nodes0 arcs0 capacity0 = Inr m"
  shows "ObjVal m y =
    100 * y (remove (''s'', ''A'')) + 150 * y (remove (''s'', ''B'')) +
    120 * y (remove (''A'', ''B'')) + 90 * y (remove (''A'', ''C'')) +
    110 * y (remove (''B'', ''D'')) + 120 * y (remove (''C'', ''D'')) +
    140 * y (remove (''C'', ''t'')) + 90 * y (remove (''D'', ''t''))"
  unfolding ObjVal_min_cut_dom[OF assms dom0] by (simp add: arcs0_def capacity0_def)

lemma optimal_flow0:
  assumes "max_flow_model nodes0 arcs0 capacity0 = Inr m"
  shows "optimal m flow0" and "ObjVal m flow0 = 180"
proof -
  have sense: "ModelSense m = - 1" using assms unfolding max_flow_model_Inr by simp
  show v: "ObjVal m flow0 = 180"
    unfolding ObjVal_flow0[OF assms] by (simp add: flow0_def)
  have f: "feasible m flow0"
    unfolding feasible_flow0[OF assms] by (simp add: flow0_def)
  have "ObjVal m x \<le> 180" if "feasible m x" for x
    using that unfolding feasible_flow0[OF assms] ObjVal_flow0[OF assms] by linarith
  with f v show "optimal m flow0"
    by (simp add: optimal_def better_eq_def sense)
qed

lemma optimal_cut0:
  assumes "min_cut_model nodes0 arcs0 capacity0 = Inr m"
  shows "optimal m cut0" and "ObjVal m cut0 = 180"
proof -
  have sense: "ModelSense m = 1" using assms unfolding min_cut_model_Inr by simp
  obtain m1 where m1: "max_flow_model nodes0 arcs0 capacity0 = Inr m1" using mf0 by blast
  show v: "ObjVal m cut0 = 180"
    unfolding ObjVal_cut0[OF assms] by (simp add: cut0_def)
  have f: "feasible m cut0"
    unfolding feasible_cut0[OF assms] by (simp add: cut0_def)
  have "180 \<le> ObjVal m y" if "feasible m y" for y
    using weak_duality[OF m1 assms star_free0 _ that, of flow0] optimal_flow0[OF m1]
    by (simp add: optimal_def)
  with f v show "optimal m cut0"
    by (simp add: optimal_def better_eq_def sense)
qed

lemma optimal_cut0_unique:
  assumes m: "min_cut_model nodes0 arcs0 capacity0 = Inr m" and y: "optimal m y"
  shows "ObjVal m y = 180" and "selected arcs0 y = [(''A'', ''C''), (''D'', ''t'')]"
proof -
  have sense: "ModelSense m = 1" using m unfolding min_cut_model_Inr by simp
  from y have f: "feasible m y" by (simp add: optimal_def)
  from y optimal_cut0[OF m] have le: "ObjVal m y \<le> 180"
    by (auto simp: optimal_def better_eq_def sense)
  from optimal_cut0[OF m] f have ge: "180 \<le> ObjVal m y"
    by (auto simp: optimal_def better_eq_def sense)
  from le ge show "ObjVal m y = 180" by simp
  from f[unfolded feasible_cut0[OF m]]
  have n: "0 \<le> y (remove (''s'', ''A''))" "0 \<le> y (remove (''s'', ''B''))"
      "0 \<le> y (remove (''A'', ''B''))" "0 \<le> y (remove (''B'', ''D''))"
      "0 \<le> y (remove (''C'', ''D''))" "0 \<le> y (remove (''C'', ''t''))"
    and c1: "1 \<le> y (remove (''s'', ''A'')) + y (connect ''A'')"
    and c2: "1 \<le> y (remove (''s'', ''B'')) + y (connect ''B'')"
    and c3: "0 \<le> y (remove (''A'', ''C'')) + y (connect ''C'') - y (connect ''A'')"
    and c4: "0 \<le> y (remove (''B'', ''D'')) + y (connect ''D'') - y (connect ''B'')"
    and c5: "0 \<le> y (remove (''C'', ''t'')) - y (connect ''C'')"
    and c6: "0 \<le> y (remove (''D'', ''t'')) - y (connect ''D'')"
    and zC: "0 \<le> y (connect ''C'')"
    by simp_all
  note L = le[unfolded ObjVal_cut0[OF m]]
  have S: "2 \<le> y (remove (''s'', ''A'')) + y (remove (''s'', ''B'')) + y (remove (''A'', ''C'')) +
             y (remove (''B'', ''D'')) + y (remove (''C'', ''t'')) + y (remove (''D'', ''t''))"
    using c1 c2 c3 c4 c5 c6 by linarith
  have T: "10 * y (remove (''s'', ''A'')) + 60 * y (remove (''s'', ''B'')) +
           120 * y (remove (''A'', ''B'')) + 20 * y (remove (''B'', ''D'')) +
           120 * y (remove (''C'', ''D'')) + 50 * y (remove (''C'', ''t'')) \<le> 0"
    using S L by linarith
  have z1: "y (remove (''s'', ''A'')) = 0" using T n by linarith
  have z2: "y (remove (''s'', ''B'')) = 0" using T n by linarith
  have z3: "y (remove (''A'', ''B'')) = 0" using T n by linarith
  have z4: "y (remove (''B'', ''D'')) = 0" using T n by linarith
  have z5: "y (remove (''C'', ''D'')) = 0" using T n by linarith
  have z6: "y (remove (''C'', ''t'')) = 0" using T n by linarith
  have g1: "1 \<le> y (remove (''A'', ''C''))" using c1 c3 c5 z1 z6 zC by linarith
  have g2: "1 \<le> y (remove (''D'', ''t''))" using c2 c4 c6 z2 z4 by linarith
  have "y (remove (''A'', ''C'')) + y (remove (''D'', ''t'')) \<le> 2"
    using L z1 z2 z3 z4 z5 z6 by simp
  with g1 g2 have "y (remove (''A'', ''C'')) = 1" "y (remove (''D'', ''t'')) = 1"
    by linarith+
  with z1 z2 z3 z4 z5 z6
  show "selected arcs0 y = [(''A'', ''C''), (''D'', ''t'')]"
    by (simp add: selected_def arcs0_def)
qed

text \<open>
  Claim C3. On the network of the notebook, nodes \<open>s, A, B, C, D, t\<close> with the
  capacities \<open>(s,A) = 100\<close>, \<open>(s,B) = 150\<close>, \<open>(A,B) = 120\<close>, \<open>(A,C) = 90\<close>,
  \<open>(B,D) = 110\<close>, \<open>(C,D) = 120\<close>, \<open>(C,t) = 140\<close>, \<open>(D,t) = 90\<close>, both functions
  build their model; the model of \<^verbatim>\<open>max_flow\<close> has the optimal value 180; the model of
  \<^verbatim>\<open>min_cut\<close> has the optimal value 180, and in every optimal solution of it the arcs
  with \<open>r > 0.5\<close> are exactly \<open>(A,C)\<close> and \<open>(D,t)\<close>.
\<close>

theorem notebook_network_180:
  "\<exists>m1 m2. max_flow_model nodes0 arcs0 capacity0 = Inr m1 \<and>
     min_cut_model nodes0 arcs0 capacity0 = Inr m2 \<and>
     optimal_value m1 180 \<and> (\<forall>x. optimal m1 x \<longrightarrow> ObjVal m1 x = 180) \<and>
     optimal_value m2 180 \<and>
     (\<forall>y. optimal m2 y \<longrightarrow>
        ObjVal m2 y = 180 \<and> selected arcs0 y = [(''A'', ''C''), (''D'', ''t'')])"
proof -
  obtain m1 where m1: "max_flow_model nodes0 arcs0 capacity0 = Inr m1" using mf0 by blast
  obtain m2 where m2: "min_cut_model nodes0 arcs0 capacity0 = Inr m2" using mc0 by blast
  have v1: "optimal_value m1 180"
    using optimal_flow0[OF m1] by (auto simp: optimal_value_def)
  have v2: "optimal_value m2 180"
    using optimal_cut0[OF m2] by (auto simp: optimal_value_def)
  have "\<forall>x. optimal m1 x \<longrightarrow> ObjVal m1 x = 180"
    using optimal_value_unique[OF v1] by blast
  moreover have "\<forall>y. optimal m2 y \<longrightarrow>
        ObjVal m2 y = 180 \<and> selected arcs0 y = [(''A'', ''C''), (''D'', ''t'')]"
    using optimal_cut0_unique[OF m2] by blast
  ultimately show ?thesis using m1 m2 v1 v2 by blast
qed

theorem notebook_network_180_witness:
  "\<exists>m1 m2. max_flow_model nodes0 arcs0 capacity0 = Inr m1 \<and>
     min_cut_model nodes0 arcs0 capacity0 = Inr m2 \<and>
     optimal m1 flow0 \<and> ObjVal m1 flow0 = 180 \<and>
     optimal m2 cut0 \<and> ObjVal m2 cut0 = 180 \<and>
     selected arcs0 cut0 = [(''A'', ''C''), (''D'', ''t'')]"
proof -
  from notebook_network_180 obtain m1 m2 where
    m1: "max_flow_model nodes0 arcs0 capacity0 = Inr m1" and
    m2: "min_cut_model nodes0 arcs0 capacity0 = Inr m2" and
    a1: "\<forall>x. optimal m1 x \<longrightarrow> ObjVal m1 x = 180" and
    a2: "\<forall>y. optimal m2 y \<longrightarrow>
        ObjVal m2 y = 180 \<and> selected arcs0 y = [(''A'', ''C''), (''D'', ''t'')]"
    by blast
  have o1: "optimal m1 flow0" by (rule optimal_flow0(1)[OF m1])
  have o2: "optimal m2 cut0" by (rule optimal_cut0(1)[OF m2])
  from a1 o1 have "ObjVal m1 flow0 = 180" by blast
  moreover from a2 o2 have "ObjVal m2 cut0 = 180 \<and>
      selected arcs0 cut0 = [(''A'', ''C''), (''D'', ''t'')]" by blast
  ultimately show ?thesis using m1 m2 o1 o2 by blast
qed

section \<open>The network with one arc from source to sink\<close>

lemma max_flow_model1:
  "\<exists>m. max_flow_model nodes1 arcs1 capacity1 = Inr m"
  unfolding max_flow_model_Inr by (simp add: arcs1_def capacity1_def)

lemma optimal_value1:
  assumes "max_flow_model nodes1 arcs1 capacity1 = Inr m"
  shows "optimal_value m 50"
proof -
  have sense: "ModelSense m = - 1" using assms unfolding max_flow_model_Inr by simp
  have int: "interior nodes1 = {}" by (auto simp: interior_def nodes1_def)
  have sf: "star_free arcs1" by (simp add: star_free_def arcs1_def)
  have F: "feasible m x \<longleftrightarrow> 0 \<le> x (flow (''s'', ''t'')) \<and> x (flow (''s'', ''t'')) \<le> 50" for x
    unfolding feasible_max_flow[OF assms sf] is_flow_def int
    by (simp add: arcs1_def capacity1_def)
  have V: "ObjVal m x = x (flow (''s'', ''t''))" for x
    unfolding ObjVal_max_flow[OF assms] by (simp add: arcs1_def outflow_def)
  have "optimal m (\<lambda>v. 50)"
    by (simp add: optimal_def better_eq_def sense F V)
  moreover have "ObjVal m (\<lambda>v. 50) = 50" by (simp add: V)
  ultimately show ?thesis unfolding optimal_value_def by blast
qed

text \<open>
  Claim C4. On the network with the nodes \<open>s\<close> and \<open>t\<close> and the single arc \<open>(s,t)\<close> of
  capacity 50 the model of \<^verbatim>\<open>max_flow\<close> has the optimal value 50. \<^verbatim>\<open>min_cut\<close> does
  not return a cut there: the arc leaves \<^verbatim>\<open>"s"\<close>, so the loop evaluates
  \<^verbatim>\<open>connect["t"]\<close>, a key that \<^verbatim>\<open>connect\<close> does not have, and the function ends with
  \<^verbatim>\<open>KeyError\<close>, nothing printed, whatever the solver is.
\<close>

theorem single_arc_min_cut_KeyError:
  "(\<exists>m. max_flow_model nodes1 arcs1 capacity1 = Inr m \<and> optimal_value m 50) \<and>
   min_cut_model nodes1 arcs1 capacity1 = Inl (KeyError_node ''t'') \<and>
   min_cut solve nodes1 arcs1 capacity1 = ([], Some (KeyError_node ''t''))"
proof -
  have "\<exists>m. max_flow_model nodes1 arcs1 capacity1 = Inr m \<and> optimal_value m 50"
    using max_flow_model1 optimal_value1 by blast
  moreover have k: "min_cut_model nodes1 arcs1 capacity1 = Inl (KeyError_node ''t'')"
    by (simp add: min_cut_model_def nodes1_def arcs1_def addVars_def
        cut_constr_def connect_at_def)
  moreover have "min_cut solve nodes1 arcs1 capacity1 = ([], Some (KeyError_node ''t''))"
    by (simp add: min_cut_def k)
  ultimately show ?thesis by blast
qed

section \<open>The solver, feasibility of what is returned, weak duality\<close>

lemma max_flow_cases:
  assumes "max_flow_model nodes arcs capacity = Inr m"
  shows "max_flow solve nodes arcs capacity =
     (if fst (solve m) = OPTIMAL
      then (Optimal_flows #
              map (\<lambda>a. Arc_line (fst a) (snd a) (snd (solve m) (flow a)))
                (filter (\<lambda>a. snd (solve m) (flow a) > 0) arcs),
            None)
      else ([], None))"
proof -
  obtain st x where sm: "solve m = (st, x)" by (cases "solve m")
  show ?thesis by (cases st) (simp_all add: max_flow_def assms sm)
qed

lemma min_cut_cases:
  assumes "min_cut_model nodes arcs capacity = Inr m"
  shows "min_cut solve nodes arcs capacity =
     (if fst (solve m) = OPTIMAL
      then print_cuts capacity (selected arcs (snd (solve m))) [Optimal_cuts]
      else ([], None))"
proof -
  obtain st x where sm: "solve m = (st, x)" by (cases "solve m")
  show ?thesis by (cases st) (simp_all add: min_cut_def assms sm)
qed

lemma print_cuts_ok:
  assumes "set as \<subseteq> dom capacity"
  shows "print_cuts capacity as out =
         (out @ map (\<lambda>a. Arc_line (fst a) (snd a) (the (capacity a))) as, None)"
  using assms by (induction as arbitrary: out) auto

lemma print_cuts_fail:
  assumes "set as \<subseteq> dom capacity" and "capacity a = None"
  shows "print_cuts capacity (as @ a # bs) out =
         (out @ map (\<lambda>a. Arc_line (fst a) (snd a) (the (capacity a))) as, Some (KeyError_arc a))"
  using assms by (induction as arbitrary: out) auto

lemma print_cuts_error:
  "snd (print_cuts capacity as out) = None \<longleftrightarrow> set as \<subseteq> dom capacity"
  by (induction as arbitrary: out) (auto split: option.splits)

lemma print_cuts_Some:
  "snd (print_cuts capacity as out) = Some e \<Longrightarrow>
     \<exists>a \<in> set as. e = KeyError_arc a \<and> capacity a = None"
  by (induction as arbitrary: out) (auto split: option.splits)












section \<open>Unchecked input and the status of the solver\<close>

lemma max_flow_model_exists:
  "(\<exists>m. max_flow_model nodes arcs capacity = Inr m) \<longleftrightarrow>
     distinct arcs \<and> set arcs \<subseteq> dom capacity"
  unfolding max_flow_model_Inr by simp

lemma min_cut_model_exists:
  "(\<exists>m. min_cut_model nodes arcs capacity = Inr m) \<longleftrightarrow>
     distinct arcs \<and> distinct (filter (\<lambda>i. i \<noteq> ''s'' \<and> i \<noteq> ''t'') nodes) \<and>
     (\<forall>a \<in> set arcs. cut_keys nodes a)"
  unfolding min_cut_model_Inr by simp

lemma max_flow_error:
  "snd (max_flow solve nodes arcs capacity) =
     (case max_flow_model nodes arcs capacity of Inl e \<Rightarrow> Some e | Inr m \<Rightarrow> None)"
proof (cases "max_flow_model nodes arcs capacity")
  case (Inl e)
  then show ?thesis by (simp add: max_flow_def)
next
  case (Inr m)
  then show ?thesis by (simp add: max_flow_cases)
qed

lemma min_cut_error:
  "snd (min_cut solve nodes arcs capacity) =
     (case min_cut_model nodes arcs capacity of
        Inl e \<Rightarrow> Some e
      | Inr m \<Rightarrow>
          if fst (solve m) = OPTIMAL
          then snd (print_cuts capacity (selected arcs (snd (solve m))) [Optimal_cuts])
          else None)"
proof (cases "min_cut_model nodes arcs capacity")
  case (Inl e)
  then show ?thesis by (simp add: min_cut_def)
next
  case (Inr m)
  then show ?thesis by (simp add: min_cut_cases)
qed

lemma selected_subset: "set (selected arcs y) \<subseteq> set arcs"
  by (auto simp: selected_def)

lemma models2:
  "\<exists>m. max_flow_model nodes2 arcs2 capacity2 = Inr m"
  "\<exists>m. min_cut_model nodes2 arcs2 capacity2 = Inr m"
proof -
  have d: "set arcs2 \<subseteq> dom capacity2" by (simp add: arcs2_def capacity2_def)
  have u: "distinct arcs2" "distinct (filter (\<lambda>i. i \<noteq> ''s'' \<and> i \<noteq> ''t'') nodes2)"
    by (simp_all add: arcs2_def nodes2_def)
  have k: "\<forall>a \<in> set arcs2. cut_keys nodes2 a"
    by (simp add: arcs2_def nodes2_def cut_keys_def interior_def)
  from d u show "\<exists>m. max_flow_model nodes2 arcs2 capacity2 = Inr m"
    by (simp only: max_flow_model_exists)
  from u k show "\<exists>m. min_cut_model nodes2 arcs2 capacity2 = Inr m"
    by (simp only: min_cut_model_exists)
qed

lemma infeasible2:
  assumes "max_flow_model nodes2 arcs2 capacity2 = Inr m"
  shows "\<not> feasible m x"
proof
  assume "feasible m x"
  from flow_bounds[OF assms this, of "(''s'', ''A'')"]
  show False by (auto simp: arcs2_def capacity2_def)
qed

text \<open>
  Claim C7, as the code has it. The notebook has no \<^verbatim>\<open>build\<close> operation and no
  \<^verbatim>\<open>InvalidNetworkError\<close>: the network is the three values \<^verbatim>\<open>nodes\<close>, \<^verbatim>\<open>arcs\<close> and
  \<^verbatim>\<open>capacity\<close>, passed to the two functions unchecked, and what an ill-formed
  network raises is \<^verbatim>\<open>KeyError\<close>. A call of \<^verbatim>\<open>max_flow\<close> ends without an exception exactly when no arc
  is repeated and every arc is a key of \<^verbatim>\<open>capacity\<close>. A call of \<^verbatim>\<open>min_cut\<close> ends
  without an exception exactly when no arc is repeated, no node other than \<^verbatim>\<open>"s"\<close> and
  \<^verbatim>\<open>"t"\<close> is repeated, the \<^verbatim>\<open>connect\<close> lookups of its loop succeed and, if the solver
  reports \<^verbatim>\<open>OPTIMAL\<close>, every arc with \<open>r > 0.5\<close> is a key of \<^verbatim>\<open>capacity\<close>. The sign of
  a capacity and, for \<^verbatim>\<open>max_flow\<close>, the membership of an arc's ends in \<^verbatim>\<open>nodes\<close> play
  no part.
\<close>

theorem no_validation:
  "(snd (max_flow solve nodes arcs capacity) = None \<longleftrightarrow>
      distinct arcs \<and> set arcs \<subseteq> dom capacity) \<and>
   (snd (min_cut solve nodes arcs capacity) = None \<longleftrightarrow>
      distinct arcs \<and> distinct (filter (\<lambda>i. i \<noteq> ''s'' \<and> i \<noteq> ''t'') nodes) \<and>
      (\<forall>a \<in> set arcs. cut_keys nodes a) \<and>
      (\<forall>m. min_cut_model nodes arcs capacity = Inr m \<and> fst (solve m) = OPTIMAL \<longrightarrow>
         set (selected arcs (snd (solve m))) \<subseteq> dom capacity)) \<and>
   (\<forall>e. snd (max_flow solve nodes arcs capacity) = Some e \<longrightarrow>
      (e = KeyError_duplicate \<and> \<not> distinct arcs) \<or>
      (\<exists>a \<in> set arcs. e = KeyError_arc a \<and> capacity a = None)) \<and>
   (\<forall>e. snd (min_cut solve nodes arcs capacity) = Some e \<longrightarrow>
      (e = KeyError_duplicate \<and>
       \<not> (distinct arcs \<and> distinct (filter (\<lambda>i. i \<noteq> ''s'' \<and> i \<noteq> ''t'') nodes))) \<or>
      (\<exists>a \<in> set arcs. \<not> cut_keys nodes a \<and>
         (e = KeyError_node (fst a) \<or> e = KeyError_node (snd a))) \<or>
      (\<exists>a \<in> set arcs. e = KeyError_arc a \<and> capacity a = None))"
proof (intro conjI allI impI)
  show "snd (max_flow solve nodes arcs capacity) = None \<longleftrightarrow>
      distinct arcs \<and> set arcs \<subseteq> dom capacity"
  proof (cases "max_flow_model nodes arcs capacity")
    case (Inl e)
    then have "\<not> (\<exists>m. max_flow_model nodes arcs capacity = Inr m)" by simp
    with max_flow_model_exists[of nodes arcs capacity]
    have "\<not> (distinct arcs \<and> set arcs \<subseteq> dom capacity)" by blast
    with Inl show ?thesis by (simp add: max_flow_error)
  next
    case (Inr m)
    then have "\<exists>m. max_flow_model nodes arcs capacity = Inr m" by blast
    with max_flow_model_exists[of nodes arcs capacity]
    have "distinct arcs \<and> set arcs \<subseteq> dom capacity" by blast
    with Inr show ?thesis by (simp add: max_flow_error)
  qed
next
  show "snd (min_cut solve nodes arcs capacity) = None \<longleftrightarrow>
      distinct arcs \<and> distinct (filter (\<lambda>i. i \<noteq> ''s'' \<and> i \<noteq> ''t'') nodes) \<and>
      (\<forall>a \<in> set arcs. cut_keys nodes a) \<and>
      (\<forall>m. min_cut_model nodes arcs capacity = Inr m \<and> fst (solve m) = OPTIMAL \<longrightarrow>
         set (selected arcs (snd (solve m))) \<subseteq> dom capacity)"
  proof (cases "min_cut_model nodes arcs capacity")
    case (Inl e)
    then have "\<not> (\<exists>m. min_cut_model nodes arcs capacity = Inr m)" by simp
    with min_cut_model_exists[of nodes arcs capacity]
    have "\<not> (distinct arcs \<and> distinct (filter (\<lambda>i. i \<noteq> ''s'' \<and> i \<noteq> ''t'') nodes) \<and>
      (\<forall>a \<in> set arcs. cut_keys nodes a))"
      by blast
    moreover from Inl have "snd (min_cut solve nodes arcs capacity) \<noteq> None"
      by (simp add: min_cut_error)
    ultimately show ?thesis by blast
  next
    case (Inr m)
    then have "\<exists>m. min_cut_model nodes arcs capacity = Inr m" by blast
    with min_cut_model_exists[of nodes arcs capacity]
    have b: "distinct arcs \<and> distinct (filter (\<lambda>i. i \<noteq> ''s'' \<and> i \<noteq> ''t'') nodes) \<and>
      (\<forall>a \<in> set arcs. cut_keys nodes a)"
      by blast
    have "snd (min_cut solve nodes arcs capacity) = None \<longleftrightarrow>
        (fst (solve m) = OPTIMAL \<longrightarrow> set (selected arcs (snd (solve m))) \<subseteq> dom capacity)"
      by (simp add: min_cut_error Inr print_cuts_error)
    with b Inr show ?thesis by simp
  qed
next
  fix e assume "snd (max_flow solve nodes arcs capacity) = Some e"
  then have "max_flow_model nodes arcs capacity = Inl e"
    unfolding max_flow_error by (cases "max_flow_model nodes arcs capacity") simp_all
  then show "(e = KeyError_duplicate \<and> \<not> distinct arcs) \<or>
      (\<exists>a \<in> set arcs. e = KeyError_arc a \<and> capacity a = None)"
    by (rule max_flow_model_Inl)
next
  fix e assume a: "snd (min_cut solve nodes arcs capacity) = Some e"
  show "(e = KeyError_duplicate \<and>
       \<not> (distinct arcs \<and> distinct (filter (\<lambda>i. i \<noteq> ''s'' \<and> i \<noteq> ''t'') nodes))) \<or>
      (\<exists>a \<in> set arcs. \<not> cut_keys nodes a \<and>
         (e = KeyError_node (fst a) \<or> e = KeyError_node (snd a))) \<or>
      (\<exists>a \<in> set arcs. e = KeyError_arc a \<and> capacity a = None)"
  proof (cases "min_cut_model nodes arcs capacity")
    case (Inl e')
    with a have "e' = e" by (simp add: min_cut_error)
    with Inl min_cut_model_Inl[of nodes arcs capacity e] show ?thesis by blast
  next
    case (Inr m)
    with a have "snd (print_cuts capacity (selected arcs (snd (solve m))) [Optimal_cuts]) = Some e"
      by (simp add: min_cut_error split: if_splits)
    from print_cuts_Some[OF this] obtain b where
      "b \<in> set (selected arcs (snd (solve m)))" "e = KeyError_arc b \<and> capacity b = None"
      by blast
    with selected_subset show ?thesis by blast
  qed
qed

theorem no_validation_witness:
  "(\<forall>solve. snd (max_flow solve nodes2 arcs2 capacity2) = None \<and>
            snd (min_cut solve nodes2 arcs2 capacity2) = None) \<and>
   capacity2 (''s'', ''A'') = Some (- 1) \<and>
   (\<forall>solve. snd (max_flow solve nodes2 (arcs2 @ arcs2) capacity2) = Some KeyError_duplicate)"
proof -
  have d: "set arcs2 \<subseteq> dom capacity2" by (simp add: arcs2_def capacity2_def)
  have u: "distinct arcs2" "distinct (filter (\<lambda>i. i \<noteq> ''s'' \<and> i \<noteq> ''t'') nodes2)"
    by (simp_all add: arcs2_def nodes2_def)
  have k: "\<forall>a \<in> set arcs2. cut_keys nodes2 a"
    by (simp add: arcs2_def nodes2_def cut_keys_def interior_def)
  have c: "capacity2 (''s'', ''A'') = Some (- 1)" by (simp add: capacity2_def)
  have s: "set (selected arcs2 y) \<subseteq> dom capacity2" for y
    using selected_subset[of arcs2 y] d by blast
  have 1: "snd (max_flow solve nodes2 arcs2 capacity2) = None \<and>
        snd (min_cut solve nodes2 arcs2 capacity2) = None" for solve
    using no_validation[of solve nodes2 arcs2 capacity2] d u k s by blast
  have n: "\<not> distinct (arcs2 @ arcs2)" by (simp add: arcs2_def)
  have d2: "\<not> (\<exists>a \<in> set (arcs2 @ arcs2). capacity2 a = None)"
    by (simp add: arcs2_def capacity2_def)
  have 2: "snd (max_flow solve nodes2 (arcs2 @ arcs2) capacity2) = Some KeyError_duplicate"
    for solve
  proof -
    note T = no_validation[of solve nodes2 "arcs2 @ arcs2" capacity2]
    from T n have "snd (max_flow solve nodes2 (arcs2 @ arcs2) capacity2) \<noteq> None" by blast
    then obtain e where e: "snd (max_flow solve nodes2 (arcs2 @ arcs2) capacity2) = Some e"
      by blast
    with T have "(e = KeyError_duplicate \<and> \<not> distinct (arcs2 @ arcs2)) \<or>
      (\<exists>a \<in> set (arcs2 @ arcs2). e = KeyError_arc a \<and> capacity2 a = None)" by blast
    with d2 have "e = KeyError_duplicate" by blast
    with e show ?thesis by simp
  qed
  from 1 2 c show ?thesis by blast
qed

text \<open>
  Claim C7 as stated fails: with the capacity \<open>-1\<close> on the arc \<open>(s,A)\<close> both functions
  build their model, and no error is raised.
\<close>

theorem negative_capacity_accepted:
  "(\<exists>a c. a \<in> set arcs2 \<and> capacity2 a = Some c \<and> c < 0) \<and>
   (\<exists>m. max_flow_model nodes2 arcs2 capacity2 = Inr m) \<and>
   (\<exists>m. min_cut_model nodes2 arcs2 capacity2 = Inr m) \<and>
   (\<forall>solve. snd (max_flow solve nodes2 arcs2 capacity2) = None \<and>
            snd (min_cut solve nodes2 arcs2 capacity2) = None)"
proof -
  have "(''s'', ''A'') \<in> set arcs2 \<and> capacity2 (''s'', ''A'') = Some (- 1) \<and> (- 1 :: real) < 0"
    by (simp add: arcs2_def capacity2_def)
  then have a: "\<exists>a c. a \<in> set arcs2 \<and> capacity2 a = Some c \<and> c < 0" by blast
  have d: "set arcs2 \<subseteq> dom capacity2" by (simp add: arcs2_def capacity2_def)
  have s: "set (selected arcs2 y) \<subseteq> dom capacity2" for y
    using selected_subset[of arcs2 y] d by blast
  obtain m1 where m1: "max_flow_model nodes2 arcs2 capacity2 = Inr m1" using models2(1) by blast
  obtain m2 where m2: "min_cut_model nodes2 arcs2 capacity2 = Inr m2" using models2(2) by blast
  have "snd (max_flow solve nodes2 arcs2 capacity2) = None" for solve
    by (simp add: max_flow_error m1)
  moreover have "snd (min_cut solve nodes2 arcs2 capacity2) = None" for solve
    by (simp add: min_cut_error m2 print_cuts_error s)
  ultimately show ?thesis using a m1 m2 by blast
qed

lemma models9: "\<exists>m. min_cut_model nodes2 arcs2 capacity9 = Inr m"
proof -
  have u: "distinct arcs2" "distinct (filter (\<lambda>i. i \<noteq> ''s'' \<and> i \<noteq> ''t'') nodes2)"
    by (simp_all add: arcs2_def nodes2_def)
  have k: "\<forall>a \<in> set arcs2. cut_keys nodes2 a"
    by (simp add: arcs2_def nodes2_def cut_keys_def interior_def)
  from u k show ?thesis by (simp only: min_cut_model_exists)
qed

lemma optimal_cut9:
  assumes m: "min_cut_model nodes2 arcs2 capacity9 = Inr m"
  shows "optimal m (cut_of {''s''})"
proof -
  have sense: "ModelSense m = 1" using m unfolding min_cut_model_Inr by simp
  have f: "feasible m (cut_of {''s''})"
    by (rule cut_of_feasible[OF m]) simp_all
  have v: "ObjVal m (cut_of {''s''}) = 0"
    unfolding ObjVal_min_cut[OF m] by (simp add: arcs2_def capacity9_def cut_of_def obj_of_def)
  have "0 \<le> ObjVal m y" if "feasible m y" for y
  proof -
    from that have r0: "\<forall>a \<in> set arcs2. 0 \<le> y (remove a)"
      unfolding feasible_min_cut[OF m] by simp
    then show ?thesis
      unfolding ObjVal_min_cut[OF m] by (simp add: arcs2_def capacity9_def obj_of_def)
  qed
  with f v show ?thesis by (simp add: optimal_def better_eq_def sense)
qed

text \<open>
  Claim C8, as the code has it. A \<^verbatim>\<open>KeyError\<close> of the construction reaches the caller,
  nothing printed. Once the model is built, a status other than \<^verbatim>\<open>OPTIMAL\<close> makes the
  function print nothing and return normally: no error is signalled. With the status
  \<^verbatim>\<open>OPTIMAL\<close> \<^verbatim>\<open>max_flow\<close> prints the heading and the lines computed from the whole
  solution, which for an exact solver satisfies every bound and constraint of the model.
  \<^verbatim>\<open>min_cut\<close> then prints the heading and one line for every arc with \<open>r > 0.5\<close> when all
  these arcs are keys of \<^verbatim>\<open>capacity\<close>; at the first of them that is not, it ends with
  \<^verbatim>\<open>KeyError\<close>, the heading and the earlier lines printed.
\<close>

theorem status_handling:
  "(\<forall>e. max_flow_model nodes arcs capacity = Inl e \<longrightarrow>
      max_flow solve nodes arcs capacity = ([], Some e)) \<and>
   (\<forall>e. min_cut_model nodes arcs capacity = Inl e \<longrightarrow>
      min_cut solve nodes arcs capacity = ([], Some e)) \<and>
   (\<forall>m. max_flow_model nodes arcs capacity = Inr m \<longrightarrow>
      (fst (solve m) \<noteq> OPTIMAL \<longrightarrow> max_flow solve nodes arcs capacity = ([], None)) \<and>
      (fst (solve m) = OPTIMAL \<longrightarrow>
         max_flow solve nodes arcs capacity =
           (Optimal_flows #
              map (\<lambda>a. Arc_line (fst a) (snd a) (snd (solve m) (flow a)))
                (filter (\<lambda>a. snd (solve m) (flow a) > 0) arcs),
            None)) \<and>
      (fst (solve m) = OPTIMAL \<and> exact_solver solve \<longrightarrow> feasible m (snd (solve m)))) \<and>
   (\<forall>m. min_cut_model nodes arcs capacity = Inr m \<longrightarrow>
      (fst (solve m) \<noteq> OPTIMAL \<longrightarrow> min_cut solve nodes arcs capacity = ([], None)) \<and>
      (fst (solve m) = OPTIMAL \<and> set (selected arcs (snd (solve m))) \<subseteq> dom capacity \<longrightarrow>
         min_cut solve nodes arcs capacity =
           (Optimal_cuts #
              map (\<lambda>a. Arc_line (fst a) (snd a) (the (capacity a)))
                (selected arcs (snd (solve m))),
            None)) \<and>
      (\<forall>as a bs. fst (solve m) = OPTIMAL \<and> selected arcs (snd (solve m)) = as @ a # bs \<and>
           set as \<subseteq> dom capacity \<and> capacity a = None \<longrightarrow>
         min_cut solve nodes arcs capacity =
           (Optimal_cuts # map (\<lambda>a. Arc_line (fst a) (snd a) (the (capacity a))) as,
            Some (KeyError_arc a))) \<and>
      (fst (solve m) = OPTIMAL \<and> exact_solver solve \<longrightarrow> feasible m (snd (solve m))))"
proof -
  have opt: "feasible m (snd (solve m))" if "fst (solve m) = OPTIMAL" "exact_solver solve" for m
    using exact_solver_optimal[OF that(2), of m "snd (solve m)"] that(1)
    by (cases "solve m") (simp add: optimal_def)
  have e1: "\<forall>e. max_flow_model nodes arcs capacity = Inl e \<longrightarrow>
      max_flow solve nodes arcs capacity = ([], Some e)"
    by (simp add: max_flow_def)
  have e2: "\<forall>e. min_cut_model nodes arcs capacity = Inl e \<longrightarrow>
      min_cut solve nodes arcs capacity = ([], Some e)"
    by (simp add: min_cut_def)
  have f: "\<forall>m. max_flow_model nodes arcs capacity = Inr m \<longrightarrow>
      (fst (solve m) \<noteq> OPTIMAL \<longrightarrow> max_flow solve nodes arcs capacity = ([], None)) \<and>
      (fst (solve m) = OPTIMAL \<longrightarrow>
         max_flow solve nodes arcs capacity =
           (Optimal_flows #
              map (\<lambda>a. Arc_line (fst a) (snd a) (snd (solve m) (flow a)))
                (filter (\<lambda>a. snd (solve m) (flow a) > 0) arcs),
            None)) \<and>
      (fst (solve m) = OPTIMAL \<and> exact_solver solve \<longrightarrow> feasible m (snd (solve m)))"
    using opt by (simp add: max_flow_cases)
  have c: "\<forall>m. min_cut_model nodes arcs capacity = Inr m \<longrightarrow>
      (fst (solve m) \<noteq> OPTIMAL \<longrightarrow> min_cut solve nodes arcs capacity = ([], None)) \<and>
      (fst (solve m) = OPTIMAL \<and> set (selected arcs (snd (solve m))) \<subseteq> dom capacity \<longrightarrow>
         min_cut solve nodes arcs capacity =
           (Optimal_cuts #
              map (\<lambda>a. Arc_line (fst a) (snd a) (the (capacity a)))
                (selected arcs (snd (solve m))),
            None)) \<and>
      (\<forall>as a bs. fst (solve m) = OPTIMAL \<and> selected arcs (snd (solve m)) = as @ a # bs \<and>
           set as \<subseteq> dom capacity \<and> capacity a = None \<longrightarrow>
         min_cut solve nodes arcs capacity =
           (Optimal_cuts # map (\<lambda>a. Arc_line (fst a) (snd a) (the (capacity a))) as,
            Some (KeyError_arc a))) \<and>
      (fst (solve m) = OPTIMAL \<and> exact_solver solve \<longrightarrow> feasible m (snd (solve m)))"
  proof (intro allI impI conjI)
    fix m assume m: "min_cut_model nodes arcs capacity = Inr m"
    show "min_cut solve nodes arcs capacity = ([], None)" if "fst (solve m) \<noteq> OPTIMAL"
      using that by (simp add: min_cut_cases[OF m])
    show "min_cut solve nodes arcs capacity =
           (Optimal_cuts #
              map (\<lambda>a. Arc_line (fst a) (snd a) (the (capacity a)))
                (selected arcs (snd (solve m))),
            None)"
      if "fst (solve m) = OPTIMAL \<and> set (selected arcs (snd (solve m))) \<subseteq> dom capacity"
      using that by (simp add: min_cut_cases[OF m] print_cuts_ok)
    show "min_cut solve nodes arcs capacity =
           (Optimal_cuts # map (\<lambda>a. Arc_line (fst a) (snd a) (the (capacity a))) as,
            Some (KeyError_arc a))"
      if "fst (solve m) = OPTIMAL \<and> selected arcs (snd (solve m)) = as @ a # bs \<and>
           set as \<subseteq> dom capacity \<and> capacity a = None" for as a bs
      using that by (simp add: min_cut_cases[OF m] print_cuts_fail)
    show "feasible m (snd (solve m))" if "fst (solve m) = OPTIMAL \<and> exact_solver solve"
      using that opt by blast
  qed
  from e1 e2 f c show ?thesis by (intro conjI)
qed

theorem status_handling_witness:
  "(\<exists>solve m. exact_solver solve \<and> max_flow_model nodes2 arcs2 capacity2 = Inr m \<and>
      fst (solve m) \<noteq> OPTIMAL \<and> max_flow solve nodes2 arcs2 capacity2 = ([], None)) \<and>
   (\<exists>solve m. exact_solver solve \<and> min_cut_model nodes2 arcs2 capacity9 = Inr m \<and>
      solve m = (OPTIMAL, cut_of {''s''}) \<and>
      min_cut solve nodes2 arcs2 capacity9 = ([Optimal_cuts], Some (KeyError_arc (''s'', ''A''))))"
proof -
  have 1: "\<exists>solve m. exact_solver solve \<and> max_flow_model nodes2 arcs2 capacity2 = Inr m \<and>
      fst (solve m) \<noteq> OPTIMAL \<and> max_flow solve nodes2 arcs2 capacity2 = ([], None)"
  proof -
    obtain m where m: "max_flow_model nodes2 arcs2 capacity2 = Inr m" using models2(1) by blast
    obtain solve where s: "exact_solver solve" using exact_solver_exists[of "[]"] by auto
    have n: "fst (solve m) \<noteq> OPTIMAL"
    proof
      assume "fst (solve m) = OPTIMAL"
      then have "solve m = (OPTIMAL, snd (solve m))" by (cases "solve m") simp
      from exact_solver_optimal[OF s this] infeasible2[OF m] show False by (simp add: optimal_def)
    qed
    from status_handling[of nodes2 arcs2 capacity2 solve] m n
    have "max_flow solve nodes2 arcs2 capacity2 = ([], None)" by blast
    with s m n show ?thesis by blast
  qed
  have 2: "\<exists>solve m. exact_solver solve \<and> min_cut_model nodes2 arcs2 capacity9 = Inr m \<and>
      solve m = (OPTIMAL, cut_of {''s''}) \<and>
      min_cut solve nodes2 arcs2 capacity9 = ([Optimal_cuts], Some (KeyError_arc (''s'', ''A'')))"
  proof -
    obtain m where m: "min_cut_model nodes2 arcs2 capacity9 = Inr m" using models9 by blast
    have "optimal m (cut_of {''s''})" by (rule optimal_cut9[OF m])
    then obtain solve where s: "exact_solver solve" and o: "solve m = (OPTIMAL, cut_of {''s''})"
      using exact_solver_exists[of "[(m, cut_of {''s''})]"] by auto
    have sel: "selected arcs2 (snd (solve m)) = [] @ (''s'', ''A'') # []"
      by (simp add: o selected_def arcs2_def cut_of_def)
    have cn: "capacity9 (''s'', ''A'') = None" by (simp add: capacity9_def)
    have so: "fst (solve m) = OPTIMAL" by (simp add: o)
    from status_handling[of nodes2 arcs2 capacity9 solve] m
    have "\<forall>as a bs. fst (solve m) = OPTIMAL \<and> selected arcs2 (snd (solve m)) = as @ a # bs \<and>
           set as \<subseteq> dom capacity9 \<and> capacity9 a = None \<longrightarrow>
         min_cut solve nodes2 arcs2 capacity9 =
           (Optimal_cuts # map (\<lambda>a. Arc_line (fst a) (snd a) (the (capacity9 a))) as,
            Some (KeyError_arc a))" by blast
    from this[rule_format, of "[]" "(''s'', ''A'')" "[]"] so sel cn
    have "min_cut solve nodes2 arcs2 capacity9 =
        ([Optimal_cuts], Some (KeyError_arc (''s'', ''A'')))" by simp
    with s m o show ?thesis by blast
  qed
  from 1 2 show ?thesis by (rule conjI)
qed

text \<open>
  Claim C8 as stated fails: it is not true that every call ends with an error or with
  a printed result. With the capacity \<open>-1\<close> on \<open>(s,A)\<close> the flow model has no feasible
  assignment, no exact solver can report \<^verbatim>\<open>OPTIMAL\<close>, and \<^verbatim>\<open>max_flow\<close> returns
  normally with nothing printed.
\<close>

theorem silent_on_infeasible:
  "\<not> (\<forall>solve nodes arcs capacity. exact_solver solve \<longrightarrow>
        max_flow solve nodes arcs capacity \<noteq> ([], None))"
proof
  assume a: "\<forall>solve nodes arcs capacity. exact_solver solve \<longrightarrow>
        max_flow solve nodes arcs capacity \<noteq> ([], None)"
  obtain m where m: "max_flow_model nodes2 arcs2 capacity2 = Inr m" using models2(1) by blast
  obtain solve where s: "exact_solver solve" using exact_solver_exists[of "[]"] by auto
  have n: "fst (solve m) \<noteq> OPTIMAL"
  proof
    assume "fst (solve m) = OPTIMAL"
    then have "solve m = (OPTIMAL, snd (solve m))" by (cases "solve m") simp
    from exact_solver_optimal[OF s this] infeasible2[OF m] show False by (simp add: optimal_def)
  qed
  have "max_flow solve nodes2 arcs2 capacity2 = ([], None)"
    using m n by (simp add: max_flow_cases)
  with a s show False by blast
qed

section \<open>Source and sink are the literal names\<close>

lemma models3:
  "\<exists>m. max_flow_model nodes3 arcs3 capacity3 = Inr m"
proof -
  have "distinct arcs3 \<and> set arcs3 \<subseteq> dom capacity3" by (simp add: arcs3_def capacity3_def)
  then show ?thesis by (simp only: max_flow_model_exists)
qed

lemma optimal_value3:
  assumes m: "max_flow_model nodes3 arcs3 capacity3 = Inr m"
  shows "optimal_value m 7" and "objective m \<noteq> quicksum []"
proof -
  have sense: "ModelSense m = - 1" using m unfolding max_flow_model_Inr by simp
  show "objective m \<noteq> quicksum []"
    using m unfolding max_flow_model_Inr by (simp add: arcs3_def)
  have int: "interior nodes3 = {''a'', ''b''}" by (auto simp: interior_def nodes3_def)
  have sf: "star_free arcs3" by (simp add: star_free_def arcs3_def)
  have F: "feasible m x \<longleftrightarrow>
      0 \<le> x (flow (''a'', ''s'')) \<and> x (flow (''a'', ''s'')) \<le> 5 \<and>
      0 \<le> x (flow (''s'', ''t'')) \<and> x (flow (''s'', ''t'')) \<le> 7 \<and>
      0 \<le> x (flow (''t'', ''b'')) \<and> x (flow (''t'', ''b'')) \<le> 5 \<and>
      x (flow (''a'', ''s'')) = 0 \<and> 0 = x (flow (''t'', ''b''))" for x
    unfolding feasible_max_flow[OF m sf] is_flow_def int
    by (simp add: arcs3_def capacity3_def outflow_def inflow_def)
  have V: "ObjVal m x = x (flow (''s'', ''t''))" for x
    unfolding ObjVal_max_flow[OF m] by (simp add: arcs3_def outflow_def)
  define x0 :: "var \<Rightarrow> real" where "x0 v = (if v = flow (''s'', ''t'') then 7 else 0)" for v
  have "optimal m x0"
    by (simp add: optimal_def better_eq_def sense F V x0_def)
  moreover have "ObjVal m x0 = 7" by (simp add: V x0_def)
  ultimately show "optimal_value m 7" unfolding optimal_value_def by blast
qed

text \<open>
  Claim C10 as stated fails. In the network with the nodes \<open>a, s, t, b\<close>, the source
  \<open>a\<close>, the sink \<open>b\<close> and the arcs \<open>(a,s) = 5\<close>, \<open>(s,t) = 7\<close>, \<open>(t,b) = 5\<close> the
  source is not named \<^verbatim>\<open>"s"\<close>, yet another node is: the objective of \<^verbatim>\<open>max_flow\<close> is
  the flow on \<open>(s,t)\<close>, not the empty sum, and the optimal value is 7, not 0.
\<close>

theorem source_not_named_s:
  "''a'' \<in> set nodes3 \<and> ''a'' \<noteq> ''s'' \<and>
   (\<exists>m. max_flow_model nodes3 arcs3 capacity3 = Inr m \<and>
        objective m \<noteq> quicksum [] \<and> optimal_value m 7)"
proof -
  have "''a'' \<in> set nodes3 \<and> ''a'' \<noteq> ''s''" by (simp add: nodes3_def)
  with models3 optimal_value3 show ?thesis by blast
qed

text \<open>
  Claim C10, as the code has it. Source and sink are the literal strings \<^verbatim>\<open>"s"\<close> and
  \<^verbatim>\<open>"t"\<close>. When no arc leaves a node named \<^verbatim>\<open>"s"\<close> (so whenever the network has no
  node of that name), the objective that \<^verbatim>\<open>max_flow\<close> builds is the empty sum: every
  assignment has the objective value 0, every feasible one is optimal, and 0 is the only
  possible optimal value, whatever the capacities. The constraints that \<^verbatim>\<open>min_cut\<close>
  builds are then satisfied by the assignment that is 0 everywhere, of objective 0, for
  which no arc is selected; with capacities that are not negative it is optimal. So
  the model does not describe a cut between the network's source and sink.
\<close>

theorem no_arc_leaves_s:
  assumes "\<forall>a \<in> set arcs. fst a \<noteq> ''s''"
  shows "(\<forall>m. max_flow_model nodes arcs capacity = Inr m \<longrightarrow>
            objective m = quicksum [] \<and> (\<forall>x. ObjVal m x = 0) \<and>
            (\<forall>x. feasible m x \<longrightarrow> optimal m x) \<and> (\<forall>v. optimal_value m v \<longrightarrow> v = 0)) \<and>
         (\<forall>m. min_cut_model nodes arcs capacity = Inr m \<longrightarrow>
            feasible m (\<lambda>v. 0) \<and> ObjVal m (\<lambda>v. 0) = 0 \<and> selected arcs (\<lambda>v. 0) = [] \<and>
            ((\<forall>a \<in> set arcs. 0 \<le> the (capacity a)) \<longrightarrow> optimal m (\<lambda>v. 0)))"
proof (intro conjI allI impI)
  fix m assume m: "max_flow_model nodes arcs capacity = Inr m"
  have e: "filter (\<lambda>a. fst a = ''s'') arcs = []"
    using assms by (simp add: filter_empty_conv)
  show o: "objective m = quicksum []"
    using m e unfolding max_flow_model_Inr by simp
  show v: "ObjVal m x = 0" for x by (simp add: ObjVal_def o)
  show "optimal m x" if "feasible m x" for x
    using that by (simp add: optimal_def better_eq_def v)
  show "v' = 0" if "optimal_value m v'" for v'
    using that v by (auto simp: optimal_value_def)
next
  fix m assume m: "min_cut_model nodes arcs capacity = Inr m"
  show f: "feasible m (\<lambda>v. 0)" by (rule zero_feasible_cut[OF m assms])
  show v: "ObjVal m (\<lambda>v. 0) = 0" unfolding ObjVal_min_cut[OF m] by simp
  show "selected arcs (\<lambda>v. 0) = []" by (simp add: selected_def)
  show "optimal m (\<lambda>v. 0)" if "\<forall>a \<in> set arcs. 0 \<le> the (capacity a)"
  proof -
    have sense: "ModelSense m = 1" using m unfolding min_cut_model_Inr by simp
    show ?thesis
      using f v cut_objective_nonneg[OF m that]
      by (simp add: optimal_def better_eq_def sense)
  qed
qed

theorem no_arc_leaves_s_witness:
  "\<exists>m1 m2. max_flow_model nodes4 arcs4 capacity4 = Inr m1 \<and>
     min_cut_model nodes4 arcs4 capacity4 = Inr m2 \<and>
     objective m1 = quicksum [] \<and> optimal_value m1 0 \<and>
     optimal m2 (\<lambda>v. 0) \<and> ObjVal m2 (\<lambda>v. 0) = 0 \<and> selected arcs4 (\<lambda>v. 0) = [] \<and>
     capacity4 (''a'', ''b'') = Some 5"
proof -
  have d: "distinct arcs4 \<and> set arcs4 \<subseteq> dom capacity4" by (simp add: arcs4_def capacity4_def)
  have u: "distinct arcs4 \<and> distinct (filter (\<lambda>i. i \<noteq> ''s'' \<and> i \<noteq> ''t'') nodes4)"
    by (simp add: arcs4_def nodes4_def)
  have sf: "star_free arcs4" by (simp add: star_free_def arcs4_def)
  have k: "\<forall>a \<in> set arcs4. cut_keys nodes4 a"
    by (simp add: arcs4_def nodes4_def cut_keys_def interior_def)
  from d obtain m1 where m1: "max_flow_model nodes4 arcs4 capacity4 = Inr m1"
    using max_flow_model_exists by blast
  from u k obtain m2 where m2: "min_cut_model nodes4 arcs4 capacity4 = Inr m2"
    using min_cut_model_exists by blast
  have s: "\<forall>a \<in> set arcs4. fst a \<noteq> ''s''" by (simp add: arcs4_def)
  have c: "\<forall>a \<in> set arcs4. 0 \<le> the (capacity4 a)" by (simp add: arcs4_def capacity4_def)
  note T = no_arc_leaves_s[OF s, of nodes4 capacity4]
  from T m1 have o: "objective m1 = quicksum []" and v: "\<forall>x. ObjVal m1 x = 0"
    and fo: "\<forall>x. feasible m1 x \<longrightarrow> optimal m1 x" by blast+
  have "feasible m1 (\<lambda>v. 0)"
    unfolding feasible_max_flow[OF m1 sf] is_flow_def
    by (simp add: arcs4_def capacity4_def outflow_def inflow_def)
  with fo v have ov: "optimal_value m1 0" unfolding optimal_value_def by blast
  from T m2 c have "optimal m2 (\<lambda>v. 0) \<and> ObjVal m2 (\<lambda>v. 0) = 0 \<and> selected arcs4 (\<lambda>v. 0) = []"
    by blast
  moreover have "capacity4 (''a'', ''b'') = Some 5" by (simp add: capacity4_def)
  ultimately show ?thesis using m1 m2 o ov by blast
qed

section \<open>A sink that cannot be reached\<close>

lemma zero_flow_feasible:
  assumes m: "max_flow_model nodes arcs capacity = Inr m" and sf: "star_free arcs"
    and c: "\<forall>a \<in> set arcs. 0 \<le> the (capacity a)"
  shows "feasible m (\<lambda>v. 0)" and "ObjVal m (\<lambda>v. 0) = 0"
proof -
  have e: "(\<lambda>v. 0::real) \<circ> flow = (\<lambda>a. 0)" by (simp add: comp_def)
  show "feasible m (\<lambda>v. 0)"
    unfolding feasible_max_flow[OF m sf] e by (rule is_flow_zero(1)[OF c])
  show "ObjVal m (\<lambda>v. 0) = 0"
    unfolding ObjVal_max_flow[OF m] e by (rule is_flow_zero(2)[OF c])
qed

lemma builds_on_st_network:
  assumes v: "valid_network nodes arcs capacity"
    and e: "\<forall>a \<in> set arcs. snd a \<noteq> ''s'' \<and> fst a \<noteq> ''t'' \<and> a \<noteq> (''s'', ''t'')"
  shows "\<exists>m1 m2. max_flow_model nodes arcs capacity = Inr m1 \<and>
           min_cut_model nodes arcs capacity = Inr m2"
proof -
  note d = valid_dom[OF v]
  from v have u: "distinct arcs" "distinct (filter (\<lambda>i. i \<noteq> ''s'' \<and> i \<noteq> ''t'') nodes)"
    by (simp_all add: valid_network_def)
  from e have k: "\<forall>a \<in> set arcs. cut_keys nodes a"
    using cut_keys_valid[OF v] by blast
  from d(1) u(1) obtain m1 where "max_flow_model nodes arcs capacity = Inr m1"
    using max_flow_model_exists by blast
  moreover from u k obtain m2 where "min_cut_model nodes arcs capacity = Inr m2"
    using min_cut_model_exists by blast
  ultimately show ?thesis by blast
qed

lemma unreachable_zero:
  assumes m1: "max_flow_model nodes arcs capacity = Inr m1"
    and m2: "min_cut_model nodes arcs capacity = Inr m2"
    and sf: "star_free arcs"
    and c: "\<forall>a \<in> set arcs. 0 \<le> the (capacity a)"
    and u: "(''s'', ''t'') \<notin> (set arcs)\<^sup>*"
  shows "optimal_value m1 0" and "optimal_value m2 0"
proof -
  define S where "S = {j. (''s'', j) \<in> (set arcs)\<^sup>*}"
  have s: "''s'' \<in> S" and t: "''t'' \<notin> S" using u by (simp_all add: S_def)
  have closed: "\<forall>a \<in> set arcs. fst a \<in> S \<longrightarrow> snd a \<in> S"
  proof (intro ballI impI)
    fix a assume "a \<in> set arcs" "fst a \<in> S"
    then have "(''s'', fst a) \<in> (set arcs)\<^sup>*" "(fst a, snd a) \<in> set arcs"
      by (simp_all add: S_def)
    then show "snd a \<in> S" unfolding S_def by (simp add: rtrancl.rtrancl_into_rtrancl)
  qed
  have sense1: "ModelSense m1 = - 1" using m1 unfolding max_flow_model_Inr by simp
  have sense2: "ModelSense m2 = 1" using m2 unfolding min_cut_model_Inr by simp
  have fy: "feasible m2 (cut_of S)" by (rule cut_of_feasible[OF m2 s t])
  have vy: "ObjVal m2 (cut_of S) = 0" by (rule ObjVal_cut_of_closed[OF m2 closed])
  have "optimal m2 (cut_of S)"
    using fy vy cut_objective_nonneg[OF m2 c]
    by (simp add: optimal_def better_eq_def sense2)
  with vy show "optimal_value m2 0" unfolding optimal_value_def by blast
  have "ObjVal m1 x \<le> 0" if "feasible m1 x" for x
    using weak_duality[OF m1 m2 sf that fy] vy by simp
  then have "optimal m1 (\<lambda>v. 0)"
    using zero_flow_feasible[OF m1 sf c]
    by (simp add: optimal_def better_eq_def sense1)
  with zero_flow_feasible(2)[OF m1 sf c] show "optimal_value m1 0"
    unfolding optimal_value_def by blast
qed

text \<open>
  Claim C5, as the code has it. For every valid network in which no arc enters \<^verbatim>\<open>"s"\<close>,
  no arc leaves \<^verbatim>\<open>"t"\<close>, no arc starts or ends at a node named \<^verbatim>\<open>'*'\<close> and no path
  of arcs leads from \<^verbatim>\<open>"s"\<close> to \<^verbatim>\<open>"t"\<close>, both functions build their model, the
  optimal value of the flow model is 0 and the optimal value of the cut model is 0.
\<close>

theorem unreachable_sink_zero:
  assumes "valid_network nodes arcs capacity"
    and "\<forall>a \<in> set arcs. snd a \<noteq> ''s'' \<and> fst a \<noteq> ''t''"
    and "star_free arcs"
    and "(''s'', ''t'') \<notin> (set arcs)\<^sup>*"
  shows "\<exists>m1 m2. max_flow_model nodes arcs capacity = Inr m1 \<and>
           min_cut_model nodes arcs capacity = Inr m2 \<and>
           optimal_value m1 0 \<and> optimal_value m2 0"
proof -
  note d = valid_dom[OF assms(1)]
  have "\<forall>a \<in> set arcs. a \<noteq> (''s'', ''t'')" using assms(4) by auto
  with assms(2) have "\<forall>a \<in> set arcs. snd a \<noteq> ''s'' \<and> fst a \<noteq> ''t'' \<and> a \<noteq> (''s'', ''t'')"
    by blast
  from builds_on_st_network[OF assms(1) this] obtain m1 m2 where
    m1: "max_flow_model nodes arcs capacity = Inr m1" and
    m2: "min_cut_model nodes arcs capacity = Inr m2" by blast
  from unreachable_zero[OF m1 m2 assms(3) d(2) assms(4)] m1 m2 show ?thesis by blast
qed

lemma reach_within:
  assumes "(u, x) \<in> (set arcs)\<^sup>*" and "u \<in> S" and "\<forall>a \<in> set arcs. fst a \<in> S \<longrightarrow> snd a \<in> S"
  shows "x \<in> S"
  using assms(1)
proof (induction rule: rtrancl_induct)
  case base
  then show ?case by (rule assms(2))
next
  case (step y z)
  with assms(3) show ?case by fastforce
qed

theorem unreachable_sink_zero_witness:
  "valid_network nodes2 arcs6 capacity6 \<and> star_free arcs6 \<and>
   (''s'', ''t'') \<notin> (set arcs6)\<^sup>* \<and>
   (\<exists>m1 m2. max_flow_model nodes2 arcs6 capacity6 = Inr m1 \<and>
           min_cut_model nodes2 arcs6 capacity6 = Inr m2 \<and>
           optimal_value m1 0 \<and> optimal_value m2 0)"
proof -
  have v: "valid_network nodes2 arcs6 capacity6"
    by (simp add: valid_network_def nodes2_def arcs6_def capacity6_def)
  have e: "\<forall>a \<in> set arcs6. snd a \<noteq> ''s'' \<and> fst a \<noteq> ''t''" by (simp add: arcs6_def)
  have sf: "star_free arcs6" by (simp add: star_free_def arcs6_def)
  have u: "(''s'', ''t'') \<notin> (set arcs6)\<^sup>*"
  proof
    assume "(''s'', ''t'') \<in> (set arcs6)\<^sup>*"
    from reach_within[OF this, of "{''s'', ''A''}"] show False by (simp add: arcs6_def)
  qed
  from unreachable_sink_zero[OF v e sf u] v sf u show ?thesis by blast
qed

lemma optimal_value5:
  assumes m: "max_flow_model nodes2 arcs5 capacity5 = Inr m"
  shows "optimal_value m 1"
proof -
  have sense: "ModelSense m = - 1" using m unfolding max_flow_model_Inr by simp
  have int: "interior nodes2 = {''A''}" by (auto simp: interior_def nodes2_def)
  have sf: "star_free arcs5" by (simp add: star_free_def arcs5_def)
  have F: "feasible m x \<longleftrightarrow>
      0 \<le> x (flow (''s'', ''A'')) \<and> x (flow (''s'', ''A'')) \<le> 1 \<and>
      0 \<le> x (flow (''A'', ''s'')) \<and> x (flow (''A'', ''s'')) \<le> 1 \<and>
      x (flow (''A'', ''s'')) = x (flow (''s'', ''A''))" for x
    unfolding feasible_max_flow[OF m sf] is_flow_def int
    by (simp add: arcs5_def capacity5_def outflow_def inflow_def)
  have V: "ObjVal m x = x (flow (''s'', ''A''))" for x
    unfolding ObjVal_max_flow[OF m] by (simp add: arcs5_def outflow_def)
  have "optimal m (\<lambda>v. 1)"
    by (simp add: optimal_def better_eq_def sense F V)
  moreover have "ObjVal m (\<lambda>v. 1) = 1" by (simp add: V)
  ultimately show ?thesis unfolding optimal_value_def by blast
qed

text \<open>
  Claim C5 as stated fails. The network with the nodes \<open>s, A, t\<close> and the arcs
  \<open>(s,A) = 1\<close> and \<open>(A,s) = 1\<close> is valid and its sink cannot be reached, but the
  objective of \<^verbatim>\<open>max_flow\<close> is the flow leaving \<^verbatim>\<open>"s"\<close>, not the net flow: one unit
  circulating through \<open>A\<close> back into \<^verbatim>\<open>"s"\<close> is feasible, and the optimal value is 1.
\<close>

theorem arc_into_source_circulates:
  "valid_network nodes2 arcs5 capacity5 \<and> (''s'', ''t'') \<notin> (set arcs5)\<^sup>* \<and>
   (\<exists>m. max_flow_model nodes2 arcs5 capacity5 = Inr m \<and> optimal_value m 1 \<and>
        \<not> optimal_value m 0)"
proof -
  have v: "valid_network nodes2 arcs5 capacity5"
    by (simp add: valid_network_def nodes2_def arcs5_def capacity5_def)
  have u: "(''s'', ''t'') \<notin> (set arcs5)\<^sup>*"
  proof
    assume "(''s'', ''t'') \<in> (set arcs5)\<^sup>*"
    from reach_within[OF this, of "{''s'', ''A''}"] show False by (simp add: arcs5_def)
  qed
  have "distinct arcs5 \<and> set arcs5 \<subseteq> dom capacity5" by (simp add: arcs5_def capacity5_def)
  then obtain m where m: "max_flow_model nodes2 arcs5 capacity5 = Inr m"
    using max_flow_model_exists by blast
  have o: "optimal_value m 1" by (rule optimal_value5[OF m])
  have "\<not> optimal_value m 0"
  proof
    assume "optimal_value m 0"
    then obtain x where "optimal m x" "ObjVal m x = 0" unfolding optimal_value_def by blast
    with optimal_value_unique[OF o] show False by simp
  qed
  with v u m o show ?thesis by blast
qed

section \<open>The two optimal values are equal, and an optimal cut is integral\<close>

lemma cut_of_binary: "cut_of S v = 0 \<or> cut_of S v = 1"
  by (cases v) (simp_all add: cut_of_def)

lemma binary_cut_separates:
  assumes m: "min_cut_model nodes arcs capacity = Inr m"
    and y: "feasible m y"
    and b: "\<forall>a \<in> set arcs. y (remove a) = 0 \<or> y (remove a) = 1"
  shows "separates arcs (set (selected arcs y))"
  unfolding separates_def
proof
  let ?R = "set arcs - set (selected arcs y)"
  from y have row: "\<forall>a \<in> set arcs. potential y (fst a) - potential y (snd a) \<le> y (remove a)"
    unfolding feasible_min_cut[OF m] by simp
  have step: "1 \<le> potential y (snd a)" if "a \<in> ?R" "1 \<le> potential y (fst a)" for a
  proof -
    from that(1) have a: "a \<in> set arcs" by simp
    from that(1) have "\<not> y (remove a) > 0.5" by (simp add: selected_def)
    moreover from b a have "y (remove a) = 0 \<or> y (remove a) = 1" by blast
    ultimately have "y (remove a) = 0" by auto
    moreover from row a have "potential y (fst a) - potential y (snd a) \<le> y (remove a)" by blast
    ultimately show ?thesis using that(2) by simp
  qed
  assume "(''s'', ''t'') \<in> ?R\<^sup>*"
  then have "1 \<le> potential y ''t''"
  proof (induction rule: rtrancl_induct)
    case base
    show ?case by (simp add: potential_def)
  next
    case (step u w)
    from step.hyps(2) step.IH \<open>\<And>a. a \<in> ?R \<Longrightarrow> 1 \<le> potential y (fst a) \<Longrightarrow> 1 \<le> potential y (snd a)\<close>[of "(u, w)"]
    show ?case by simp
  qed
  then show False by (simp add: potential_def)
qed

lemma binary_cut_capacity:
  fixes c :: "arc \<Rightarrow> real"
  assumes "\<forall>a \<in> set arcs. y (remove a) = 0 \<or> y (remove a) = 1"
  shows "(\<Sum>a\<leftarrow>selected arcs y. c a) = (\<Sum>a\<leftarrow>arcs. c a * y (remove a))"
  using assms by (induction arcs) (auto simp: selected_def)

text \<open>
  Claim C1, as the code has it. For every valid network in which no arc enters \<^verbatim>\<open>"s"\<close>,
  no arc leaves \<^verbatim>\<open>"t"\<close>, no arc joins \<^verbatim>\<open>"s"\<close> to \<^verbatim>\<open>"t"\<close> directly and no arc starts
  or ends at a node named \<^verbatim>\<open>'*'\<close>, both functions build their model, both models have
  an optimal solution, and the optimal value of the flow model equals the optimal value
  of the cut model exactly.
\<close>

theorem max_flow_min_cut:
  assumes "valid_network nodes arcs capacity"
    and "\<forall>a \<in> set arcs. snd a \<noteq> ''s'' \<and> fst a \<noteq> ''t'' \<and> a \<noteq> (''s'', ''t'')"
    and "star_free arcs"
  shows "\<exists>m1 m2 v. max_flow_model nodes arcs capacity = Inr m1 \<and>
           min_cut_model nodes arcs capacity = Inr m2 \<and>
           optimal_value m1 v \<and> optimal_value m2 v \<and>
           (\<forall>x. optimal m1 x \<longrightarrow> ObjVal m1 x = v) \<and> (\<forall>y. optimal m2 y \<longrightarrow> ObjVal m2 y = v)"
proof -
  from builds_on_st_network[OF assms(1,2)] obtain m1 m2 where
    m1: "max_flow_model nodes arcs capacity = Inr m1" and
    m2: "min_cut_model nodes arcs capacity = Inr m2" by blast
  note d = valid_dom[OF assms(1)]
  from strong_duality[OF m2 d] obtain f S where
    f: "is_max_flow nodes arcs (\<lambda>a. the (capacity a)) f" and
    y: "optimal m2 (cut_of S)" and
    eq: "ObjVal m2 (cut_of S) = outflow arcs f ''s''" by blast
  have x: "optimal m1 (flow_of f)"
    unfolding optimal_max_flow[OF m1 assms(3)] flow_of_flow by (rule f)
  have vx: "ObjVal m1 (flow_of f) = outflow arcs f ''s''"
    unfolding ObjVal_max_flow[OF m1] flow_of_flow ..
  have v1: "optimal_value m1 (outflow arcs f ''s'')"
    using x vx unfolding optimal_value_def by blast
  have v2: "optimal_value m2 (outflow arcs f ''s'')"
    using y eq unfolding optimal_value_def by blast
  show ?thesis
    by (intro exI[of _ m1] exI[of _ m2] exI[of _ "outflow arcs f ''s''"] conjI allI impI m1 m2
        v1 v2 optimal_value_unique[OF v1] optimal_value_unique[OF v2])
qed

lemma valid0: "valid_network nodes0 arcs0 capacity0"
  by (simp add: valid_network_def nodes0_def arcs0_def capacity0_def)

lemma ends0: "\<forall>a \<in> set arcs0. snd a \<noteq> ''s'' \<and> fst a \<noteq> ''t'' \<and> a \<noteq> (''s'', ''t'')"
  by (simp add: arcs0_def)

theorem max_flow_min_cut_witness:
  "valid_network nodes0 arcs0 capacity0 \<and> star_free arcs0 \<and>
   (\<exists>m1 m2. max_flow_model nodes0 arcs0 capacity0 = Inr m1 \<and>
      min_cut_model nodes0 arcs0 capacity0 = Inr m2 \<and>
      optimal_value m1 180 \<and> optimal_value m2 180)"
proof -
  from max_flow_min_cut[OF valid0 ends0 star_free0] obtain m1 m2 v where
    m1: "max_flow_model nodes0 arcs0 capacity0 = Inr m1" and
    m2: "min_cut_model nodes0 arcs0 capacity0 = Inr m2" and
    v1: "optimal_value m1 v" and v2: "optimal_value m2 v" and
    u: "\<forall>x. optimal m1 x \<longrightarrow> ObjVal m1 x = v" by blast
  from u optimal_flow0[OF m1] have "v = 180" by auto
  with m1 m2 v1 v2 valid0 star_free0 show ?thesis by blast
qed

text \<open>
  Claim C1 as stated fails. The network with the nodes \<open>s, A, t\<close> and the arcs
  \<open>(s,A) = 1\<close>, \<open>(A,s) = 1\<close> is valid; the empty set of arcs is a cut, of capacity 0;
  the flow model counts the unit that circulates back into \<^verbatim>\<open>"s"\<close> and has the optimal
  value 1; and \<^verbatim>\<open>min_cut\<close> builds no model, it ends with \<^verbatim>\<open>KeyError\<close> at
  \<^verbatim>\<open>connect["s"]\<close>.
\<close>

theorem arc_into_source_no_duality:
  "valid_network nodes2 arcs5 capacity5 \<and>
   (\<exists>m. max_flow_model nodes2 arcs5 capacity5 = Inr m \<and> optimal_value m 1) \<and>
   separates arcs5 {} \<and>
   min_cut_model nodes2 arcs5 capacity5 = Inl (KeyError_node ''s'')"
proof -
  have v: "valid_network nodes2 arcs5 capacity5"
    by (simp add: valid_network_def nodes2_def arcs5_def capacity5_def)
  have u: "separates arcs5 {}"
    unfolding separates_def
  proof
    assume "(''s'', ''t'') \<in> (set arcs5 - {})\<^sup>*"
    then have "(''s'', ''t'') \<in> (set arcs5)\<^sup>*" by simp
    from reach_within[OF this, of "{''s'', ''A''}"] show False by (simp add: arcs5_def)
  qed
  have "distinct arcs5 \<and> set arcs5 \<subseteq> dom capacity5" by (simp add: arcs5_def capacity5_def)
  then obtain m where m: "max_flow_model nodes2 arcs5 capacity5 = Inr m"
    using max_flow_model_exists by blast
  have k: "min_cut_model nodes2 arcs5 capacity5 = Inl (KeyError_node ''s'')"
    by (simp add: min_cut_model_def nodes2_def arcs5_def addVars_def
        cut_constr_def connect_at_def Let_def)
  from v m optimal_value5[OF m] u k show ?thesis by blast
qed

lemma valid7: "valid_network nodes2 arcs2 capacity7"
  by (simp add: valid_network_def nodes2_def arcs2_def capacity7_def)

lemma models7: "\<exists>m. min_cut_model nodes2 arcs2 capacity7 = Inr m"
proof -
  have u: "distinct arcs2" "distinct (filter (\<lambda>i. i \<noteq> ''s'' \<and> i \<noteq> ''t'') nodes2)"
    by (simp_all add: arcs2_def nodes2_def)
  have k: "\<forall>a \<in> set arcs2. cut_keys nodes2 a"
    by (simp add: arcs2_def nodes2_def cut_keys_def interior_def)
  from u k show ?thesis by (simp only: min_cut_model_exists)
qed

lemma half_optimal:
  assumes m2: "min_cut_model nodes2 arcs2 capacity7 = Inr m2"
  shows "optimal m2 half" and "ObjVal m2 half = 1"
proof -
  have d: "set arcs2 \<subseteq> dom capacity7" by (simp add: arcs2_def capacity7_def)
  have int: "interior nodes2 = {''A''}" by (auto simp: interior_def nodes2_def)
  have f1: "is_flow nodes2 arcs2 (\<lambda>a. the (capacity7 a)) (\<lambda>a. 1)"
    unfolding is_flow_def int
    by (simp add: arcs2_def capacity7_def outflow_def inflow_def)
  have v1: "outflow arcs2 (\<lambda>a. 1 :: real) ''s'' = 1"
    by (simp add: arcs2_def outflow_def)
  have f2: "feasible m2 half"
    unfolding feasible_min_cut[OF m2] int
    by (simp add: arcs2_def potential_def half_def)
  show v2: "ObjVal m2 half = 1"
    unfolding ObjVal_min_cut_dom[OF m2 d] by (simp add: arcs2_def capacity7_def half_def)
  have sense: "ModelSense m2 = 1" using m2 unfolding min_cut_model_Inr by simp
  have "1 \<le> ObjVal m2 y" if "feasible m2 y" for y
    using weak_duality_cut[OF m2 d f1 that] v1 by simp
  with f2 v2 show "optimal m2 half"
    by (simp add: optimal_def better_eq_def sense)
qed

text \<open>
  Claim C2, as the code has it. For every valid network in which no arc enters \<^verbatim>\<open>"s"\<close>,
  no arc leaves \<^verbatim>\<open>"t"\<close> and no arc joins \<^verbatim>\<open>"s"\<close> to \<^verbatim>\<open>"t"\<close> directly, the model of
  \<^verbatim>\<open>min_cut\<close>, with \<open>r\<close> and \<open>z\<close> continuous, has an optimal solution in which every
  value is 0 or 1; and for every optimal solution whose \<open>r\<close> values are 0 or 1 the arcs
  with \<open>r > 0.5\<close> form a cut between \<^verbatim>\<open>"s"\<close> and \<^verbatim>\<open>"t"\<close> whose total capacity is the
  optimal objective value.
\<close>

theorem min_cut_integral:
  assumes "valid_network nodes arcs capacity"
    and "\<forall>a \<in> set arcs. snd a \<noteq> ''s'' \<and> fst a \<noteq> ''t'' \<and> a \<noteq> (''s'', ''t'')"
  shows "\<exists>m. min_cut_model nodes arcs capacity = Inr m \<and>
           (\<exists>y. optimal m y \<and> (\<forall>v. y v = 0 \<or> y v = 1)) \<and>
           (\<forall>y. optimal m y \<and> (\<forall>a \<in> set arcs. y (remove a) = 0 \<or> y (remove a) = 1) \<longrightarrow>
              separates arcs (set (selected arcs y)) \<and>
              (\<Sum>a\<leftarrow>selected arcs y. the (capacity a)) = ObjVal m y \<and>
              optimal_value m (\<Sum>a\<leftarrow>selected arcs y. the (capacity a)))"
proof -
  from builds_on_st_network[OF assms] obtain m2 where
    m2: "min_cut_model nodes arcs capacity = Inr m2" by blast
  note d = valid_dom[OF assms(1)]
  from strong_duality[OF m2 d] obtain S where
    "optimal m2 (cut_of S)" by blast
  then have ex: "\<exists>y. optimal m2 y \<and> (\<forall>v. y v = 0 \<or> y v = 1)"
    using cut_of_binary by blast
  have all: "separates arcs (set (selected arcs y)) \<and>
              (\<Sum>a\<leftarrow>selected arcs y. the (capacity a)) = ObjVal m2 y \<and>
              optimal_value m2 (\<Sum>a\<leftarrow>selected arcs y. the (capacity a))"
    if o: "optimal m2 y" and b: "\<forall>a \<in> set arcs. y (remove a) = 0 \<or> y (remove a) = 1" for y
  proof -
    from o have f: "feasible m2 y" by (simp add: optimal_def)
    have e: "(\<Sum>a\<leftarrow>selected arcs y. the (capacity a)) = ObjVal m2 y"
      unfolding ObjVal_min_cut_dom[OF m2 d(1)] by (rule binary_cut_capacity[OF b])
    have "optimal_value m2 (\<Sum>a\<leftarrow>selected arcs y. the (capacity a))"
      unfolding optimal_value_def using o e by (intro exI[of _ y]) simp
    with binary_cut_separates[OF m2 f b] e show ?thesis by (intro conjI)
  qed
  show ?thesis
  proof (intro exI[of _ m2] conjI)
    show "min_cut_model nodes arcs capacity = Inr m2" by (rule m2)
    show "\<exists>y. optimal m2 y \<and> (\<forall>v. y v = 0 \<or> y v = 1)" by (rule ex)
    show "\<forall>y. optimal m2 y \<and> (\<forall>a \<in> set arcs. y (remove a) = 0 \<or> y (remove a) = 1) \<longrightarrow>
              separates arcs (set (selected arcs y)) \<and>
              (\<Sum>a\<leftarrow>selected arcs y. the (capacity a)) = ObjVal m2 y \<and>
              optimal_value m2 (\<Sum>a\<leftarrow>selected arcs y. the (capacity a))"
    proof (intro allI impI)
      fix y
      assume A: "optimal m2 y \<and> (\<forall>a \<in> set arcs. y (remove a) = 0 \<or> y (remove a) = 1)"
      then have "optimal m2 y" and "\<forall>a \<in> set arcs. y (remove a) = 0 \<or> y (remove a) = 1"
        by simp_all
      then show "separates arcs (set (selected arcs y)) \<and>
              (\<Sum>a\<leftarrow>selected arcs y. the (capacity a)) = ObjVal m2 y \<and>
              optimal_value m2 (\<Sum>a\<leftarrow>selected arcs y. the (capacity a))"
        by (rule all)
    qed
  qed
qed

theorem min_cut_integral_witness:
  "valid_network nodes0 arcs0 capacity0 \<and>
   (\<exists>m. min_cut_model nodes0 arcs0 capacity0 = Inr m \<and> optimal m cut0 \<and>
        separates arcs0 (set (selected arcs0 cut0)) \<and>
        (\<Sum>a\<leftarrow>selected arcs0 cut0. the (capacity0 a)) = ObjVal m cut0 \<and>
        optimal_value m (\<Sum>a\<leftarrow>selected arcs0 cut0. the (capacity0 a)))"
proof -
  from min_cut_integral[OF valid0 ends0] obtain m where
    m: "min_cut_model nodes0 arcs0 capacity0 = Inr m" and
    a: "\<forall>y. optimal m y \<and> (\<forall>a \<in> set arcs0. y (remove a) = 0 \<or> y (remove a) = 1) \<longrightarrow>
              separates arcs0 (set (selected arcs0 y)) \<and>
              (\<Sum>a\<leftarrow>selected arcs0 y. the (capacity0 a)) = ObjVal m y \<and>
              optimal_value m (\<Sum>a\<leftarrow>selected arcs0 y. the (capacity0 a))"
    by blast
  have o: "optimal m cut0" by (rule optimal_cut0(1)[OF m])
  have b: "\<forall>a \<in> set arcs0. cut0 (remove a) = 0 \<or> cut0 (remove a) = 1"
    by (simp add: cut0_def)
  from a o b have "separates arcs0 (set (selected arcs0 cut0)) \<and>
        (\<Sum>a\<leftarrow>selected arcs0 cut0. the (capacity0 a)) = ObjVal m cut0 \<and>
        optimal_value m (\<Sum>a\<leftarrow>selected arcs0 cut0. the (capacity0 a))" by blast
  with valid0 m o show ?thesis by blast
qed

text \<open>
  Claim C2 as stated fails for an optimal solution that is not 0 or 1. On the path
  \<open>s, A, t\<close> with both capacities 1 the assignment one half everywhere is an optimal
  solution of the cut model, of objective 1; no arc has \<open>r > 0.5\<close>, so the selected set
  is empty and is not a cut.
\<close>

theorem fractional_optimum_selects_no_cut:
  "valid_network nodes2 arcs2 capacity7 \<and>
   (\<exists>m. min_cut_model nodes2 arcs2 capacity7 = Inr m \<and> optimal m half \<and>
        ObjVal m half = 1 \<and> selected arcs2 half = [] \<and>
        \<not> separates arcs2 (set (selected arcs2 half)))"
proof -
  obtain m where m: "min_cut_model nodes2 arcs2 capacity7 = Inr m" using models7 by blast
  have e: "selected arcs2 half = []" by (simp add: selected_def half_def)
  have "(''s'', ''A'') \<in> set arcs2" "(''A'', ''t'') \<in> set arcs2" by (simp_all add: arcs2_def)
  then have "(''s'', ''t'') \<in> (set arcs2)\<^sup>*"
    by (meson r_into_rtrancl rtrancl_trans)
  then have "\<not> separates arcs2 (set (selected arcs2 half))"
    by (simp add: separates_def e)
  with valid7 m half_optimal[OF m] e show ?thesis by blast
qed

end
